theory Spec2Isabelle
  imports Main "HOL-Library.Word"
begin

section \<open>Go values used by the report generator\<close>

text \<open>
  The tool of \<^verbatim>\<open>_tools/types/main.go\<close> lists the official drivers, clones or pulls
  their repositories under a cap of three simultaneous operations, counts UAST type usage
  per driver and prints a Markdown table. Go's \<^verbatim>\<open>int\<close> is taken at its 64-bit width,
  a \<^verbatim>\<open>string\<close> is its byte sequence, and an \<^verbatim>\<open>error\<close> is the message it carries.
\<close>

type_synonym go_int = "64 word"

datatype go_error = GoError string

datatype go_panic = SliceBoundsOutOfRange int | AssignToNilMap

text \<open>
  A \<^verbatim>\<open>map[string]int\<close> is a reference: copying a \<^verbatim>\<open>driverStats\<close> value copies the
  reference, not the table. The tables therefore live in a store, and a record holds the
  address (\<open>None\<close> is the nil map).
\<close>

type_synonym go_map = "string \<rightharpoonup> go_int"
type_synonym map_ref = "nat option"
type_synonym heap = "nat \<Rightarrow> go_map"

datatype 'a outcome = Ok 'a | Err go_error | Panic go_panic

definition deref :: "heap \<Rightarrow> map_ref \<Rightarrow> go_map" where
  "deref h r = (case r of None \<Rightarrow> Map.empty | Some a \<Rightarrow> h a)"

text \<open>The index expression \<^verbatim>\<open>m[k]\<close>: the zero value when the key is absent or the map is nil.\<close>

definition map_index :: "heap \<Rightarrow> map_ref \<Rightarrow> string \<Rightarrow> go_int" where
  "map_index h r k = (case deref h r k of None \<Rightarrow> 0 | Some v \<Rightarrow> v)"

record driverStats =
  url :: string
  language :: string
  path :: string
  fixturesUast :: map_ref
  codeUast :: map_ref

record uastType =
  name :: string

section \<open>The formatting verbs of package fmt\<close>

text \<open>\<^verbatim>\<open>%d\<close>: the decimal digits of the magnitude, after a minus sign for a negative value.\<close>

definition digit_char :: "nat \<Rightarrow> char" where
  "digit_char d = ''0123456789'' ! d"

function fmt_digits :: "nat \<Rightarrow> string" where
  "fmt_digits n =
     (if n < 10 then [digit_char n] else fmt_digits (n div 10) @ [digit_char (n mod 10)])"
  by pat_completeness auto
termination
  by (relation "measure id") auto

declare fmt_digits.simps [simp del]

definition fmt_d :: "go_int \<Rightarrow> string" where
  "fmt_d v =
     (if sint v < 0 then CHR ''-'' # fmt_digits (nat (- sint v)) else fmt_digits (nat (sint v)))"

text \<open>
  A width pads on the left with spaces up to that many runes; package unicode/utf8 counts
  one rune for every well-formed encoding and one for every byte that starts none.
\<close>

definition utf8_first :: "nat \<Rightarrow> (nat \<times> nat \<times> nat) option" where
  "utf8_first c =
     (if 0xC2 \<le> c \<and> c \<le> 0xDF then Some (2, 0x80, 0xBF)
      else if c = 0xE0 then Some (3, 0xA0, 0xBF)
      else if 0xE1 \<le> c \<and> c \<le> 0xEC then Some (3, 0x80, 0xBF)
      else if c = 0xED then Some (3, 0x80, 0x9F)
      else if 0xEE \<le> c \<and> c \<le> 0xEF then Some (3, 0x80, 0xBF)
      else if c = 0xF0 then Some (4, 0x90, 0xBF)
      else if 0xF1 \<le> c \<and> c \<le> 0xF3 then Some (4, 0x80, 0xBF)
      else if c = 0xF4 then Some (4, 0x80, 0x8F)
      else None)"

definition is_cont :: "nat \<Rightarrow> bool" where
  "is_cont c = (0x80 \<le> c \<and> c \<le> 0xBF)"

definition rune_size :: "nat \<Rightarrow> nat list \<Rightarrow> nat" where
  "rune_size c rest =
     (if c < 0x80 then 1
      else case utf8_first c of
        None \<Rightarrow> 1
      | Some (sz, lo, hi) \<Rightarrow>
          if length rest + 1 < sz then 1
          else if rest ! 0 < lo \<or> hi < rest ! 0 then 1
          else if sz = 2 then 2
          else if \<not> is_cont (rest ! 1) then 1
          else if sz = 3 then 3
          else if \<not> is_cont (rest ! 2) then 1
          else 4)"

function RuneCount :: "nat list \<Rightarrow> nat" where
  "RuneCount [] = 0"
| "RuneCount (c # rest) = Suc (RuneCount (drop (rune_size c rest - 1) rest))"
  by pat_completeness auto
termination
  by (relation "measure length") auto

definition RuneCountInString :: "string \<Rightarrow> nat" where
  "RuneCountInString s = RuneCount (map of_char s)"

definition fmt_s :: "nat \<Rightarrow> string \<Rightarrow> string" where
  "fmt_s wid s = replicate (wid - RuneCountInString s) CHR '' '' @ s"

section \<open>The report\<close>

definition header :: string where
  "header =
     ''<!-- Code generated by 'make types' DO NOT EDIT. -->\<newline>'' @
     ''# UAST Types\<newline>'' @
     ''\<newline>'' @
     ''For every UAST type in every Driver 2 numbers are reported:\<newline>'' @
     '' - _fixtures usage_ number of times this type was used in driver _fixtures_ (*.sem.uast files)\<newline>'' @
     '' - _code usage_ number of times this type was usind in driver mapping DSL code (normalizer.go)\<newline>'' @
     ''\<newline>'' @
     ''in the format _<fixtures usage>/<code usage>_.\<newline>'' @
     ''\<newline>''"

definition footer :: string where
  "footer =
     ''\<newline>'' @
     ''**Don't see your favorite AST construct mapped? [Help us!](join-the-community.md)**\<newline>''"

text \<open>
  Standard output is the text written so far; every print appends to it. Write errors of
  \<^verbatim>\<open>fmt.Print\<close> are ignored by the source and the diagnostics on standard error are
  left out.
\<close>

definition formatMarkdownTableHeader :: "driverStats list \<Rightarrow> string \<Rightarrow> string" where
  "formatMarkdownTableHeader drivers out =
     (let out1 = out @ ''|'' @ fmt_s 25 '''' @ ''|'';
          out2 = foldl (\<lambda>buf dr. buf @ fmt_s 5 (language dr) @ ''|'') out1 drivers;
          out3 = out2 @ ''\<newline>| :---------------------- |'';
          out4 = foldl (\<lambda>buf dr. buf @ '' :-- |'') out3 drivers
      in out4 @ ''\<newline>'')"

definition formatMarkdownTable :: "heap \<Rightarrow> driverStats list \<Rightarrow> uastType list \<Rightarrow> string \<Rightarrow> string" where
  "formatMarkdownTable h drivers uastTypes out =
     (let out1 = out @ header;
          out2 = formatMarkdownTableHeader drivers out1;
          out3 = foldl (\<lambda>buf typee.
                   let o1 = buf @ ''|'' @ fmt_s 25 (name typee) @ ''|'';
                       o2 = foldl (\<lambda>p dr. p @ '' '' @ fmt_d (map_index h (fixturesUast dr) (name typee))
                                             @ ''/'' @ fmt_d (map_index h (codeUast dr) (name typee))
                                             @ '' |'') o1 drivers
                   in o2 @ ''\<newline>'') out2 uastTypes
      in out3 @ footer)"

section \<open>Listing the drivers\<close>

text \<open>
  The store: the tables allocated so far and the next free address. \<^verbatim>\<open>make(map[string]int)\<close>
  returns a fresh, empty table.
\<close>

record store =
  cells :: heap
  free :: nat

definition empty_store :: store where
  "empty_store = \<lparr>cells = (\<lambda>a. Map.empty), free = 0\<rparr>"

definition make_map :: "store \<Rightarrow> map_ref \<times> store" where
  "make_map st = (Some (free st), \<lparr>cells = (cells st)(free st := Map.empty), free = Suc (free st)\<rparr>)"

text \<open>
  \<^verbatim>\<open>strings.LastIndex(s, substr)\<close>: the index of the last instance of \<open>substr\<close> in \<open>s\<close>,
  or -1; the scan runs from the last possible position down to 0.
\<close>

fun last_index_from :: "string \<Rightarrow> string \<Rightarrow> nat \<Rightarrow> int" where
  "last_index_from s substr 0 = (if take (length substr) s = substr then 0 else - 1)"
| "last_index_from s substr (Suc i) =
     (if take (length substr) (drop (Suc i) s) = substr then int (Suc i)
      else last_index_from s substr i)"

definition LastIndex :: "string \<Rightarrow> string \<Rightarrow> int" where
  "LastIndex s substr =
     (if length s < length substr then - 1
      else last_index_from s substr (length s - length substr))"

text \<open>The slice expression \<^verbatim>\<open>s[i:]\<close> panics when \<open>i\<close> is outside \<open>0..len(s)\<close>.\<close>

definition slice_from :: "string \<Rightarrow> int \<Rightarrow> string outcome" where
  "slice_from s i =
     (if i < 0 \<or> int (length s) < i then Panic (SliceBoundsOutOfRange i)
      else Ok (drop (nat i) s))"

text \<open>
  \<^verbatim>\<open>discovery.OfficialDrivers\<close> belongs to the SDK; its answer is an input: an error, or
  the drivers with their language and the value of \<^verbatim>\<open>RepositoryURL()\<close>.
\<close>

record lang =
  Language :: string
  RepositoryURL :: string

fun listDrivers_loop :: "lang list \<Rightarrow> driverStats list \<Rightarrow> store \<Rightarrow> (driverStats list \<times> store) outcome" where
  "listDrivers_loop [] drivers st = Ok (drivers, st)"
| "listDrivers_loop (l # langs) drivers st =
     (case slice_from (RepositoryURL l) (LastIndex (RepositoryURL l) ''/'') of
        Panic p \<Rightarrow> Panic p
      | Err e \<Rightarrow> Err e
      | Ok p \<Rightarrow>
          (let (fx, st1) = make_map st;
               (cx, st2) = make_map st1
           in listDrivers_loop langs
                (drivers @ [\<lparr>url = RepositoryURL l, language = Language l, path = p,
                              fixturesUast = fx, codeUast = cx\<rparr>]) st2))"

definition listDrivers :: "go_error + lang list \<Rightarrow> store \<Rightarrow> (driverStats list \<times> store) outcome" where
  "listDrivers discovered st =
     (case discovered of
        Inl err \<Rightarrow> Err err
      | Inr langs \<Rightarrow> listDrivers_loop langs [] st)"

section \<open>The catalog and the two analyses\<close>

text \<open>
  \<^verbatim>\<open>reflect.TypeOf(v).String()\<close> of a value of a named struct type is the package name,
  a dot and the type name. The sixteen literals are of types of package \<^verbatim>\<open>uast\<close>.
\<close>

definition reflect_String :: "string \<Rightarrow> string \<Rightarrow> string" where
  "reflect_String pkg tname = pkg @ ''.'' @ tname"

definition types :: "string list" where
  "types =
     [''Identifier'', ''String'', ''Bool'', ''QualifiedIdentifier'', ''Comment'', ''Group'',
      ''FunctionGroup'', ''Block'', ''Alias'', ''Import'', ''RuntimeImport'',
      ''RuntimeReImport'', ''InlineImport'', ''Argument'', ''FunctionType'', ''Function'']"

definition findAllUastTypes :: "uastType list" where
  "findAllUastTypes =
     foldl (\<lambda>out typee. out @ [\<lparr>name = reflect_String ''uast'' typee\<rparr>]) [] types"

definition analyzeFixtures :: "driverStats \<Rightarrow> store \<Rightarrow> store outcome" where
  "analyzeFixtures driver st = Ok st"

text \<open>
  \<^verbatim>\<open>driver.codeUast["Identifier"]++\<close> writes through the map reference of the copied
  record, so the caller's table changes; on a nil map the assignment panics.
\<close>

definition analyzeCode :: "driverStats \<Rightarrow> uastType list \<Rightarrow> store \<Rightarrow> store outcome" where
  "analyzeCode driver uasts st =
     (case codeUast driver of
        None \<Rightarrow> Panic AssignToNilMap
      | Some a \<Rightarrow>
          Ok (st\<lparr>cells := (cells st)
                (a := (cells st a)(''Identifier'' \<mapsto>
                        map_index (cells st) (codeUast driver) ''Identifier'' + 1))\<rparr>))"

fun analyze_loop :: "driverStats list \<Rightarrow> uastType list \<Rightarrow> store \<Rightarrow> store outcome" where
  "analyze_loop [] uastTypes st = Ok st"
| "analyze_loop (driver # drivers) uastTypes st =
     (case analyzeFixtures driver st of
        Panic p \<Rightarrow> Panic p
      | Err e \<Rightarrow> Err e
      | Ok st1 \<Rightarrow>
          (case analyzeCode driver uastTypes st1 of
             Panic p \<Rightarrow> Panic p
           | Err e \<Rightarrow> Err e
           | Ok st2 \<Rightarrow> analyze_loop drivers uastTypes st2))"

section \<open>Cloning or pulling one repository\<close>

text \<open>
  What the operating system and the libraries answer is a parameter: the results of
  \<^verbatim>\<open>os.MkdirAll\<close>, \<^verbatim>\<open>os.Stat\<close> and \<^verbatim>\<open>os.IsNotExist\<close>, the exit of a command
  (its arguments and its working directory) and the lexical \<^verbatim>\<open>path.Join\<close>.
\<close>

record env =
  os_MkdirAll :: "string \<Rightarrow> go_error option"
  os_Stat :: "string \<Rightarrow> go_error option"
  os_IsNotExist :: "go_error \<Rightarrow> bool"
  cmd_Run :: "string list \<Rightarrow> string \<Rightarrow> go_error option"
  path_Join :: "string \<Rightarrow> string \<Rightarrow> string"

definition repoRootPath :: string where
  "repoRootPath = ''./drivers/''"

definition IsNotExist :: "env \<Rightarrow> go_error option \<Rightarrow> bool" where
  "IsNotExist w err = (case err of None \<Rightarrow> False | Some e \<Rightarrow> os_IsNotExist w e)"

definition maybeCloneOrPull :: "env \<Rightarrow> driverStats \<Rightarrow> go_error option" where
  "maybeCloneOrPull w d =
     (let repoPath = path_Join w repoRootPath (path d);
          err = os_Stat w repoPath
      in if err \<noteq> None \<and> \<not> IsNotExist w err then err
         else if IsNotExist w err then
           (case cmd_Run w [''git'', ''clone'', url d @ ''.git''] repoRootPath of
              Some e \<Rightarrow> Some e
            | None \<Rightarrow> None)
         else
           (case cmd_Run w [''git'', ''pull'', ''origin'', ''master''] repoPath of
              Some e \<Rightarrow> Some e
            | None \<Rightarrow> None))"

section \<open>The goroutines of maybeCloneOrPullAll\<close>

text \<open>
  After \<^verbatim>\<open>os.MkdirAll\<close> the main goroutine runs the loop (\<^verbatim>\<open>wg.Add(1)\<close>, then the
  \<^verbatim>\<open>go\<close> statement, for every index), waits on the group and returns nil. The goroutine
  of driver \<open>i\<close> sends on the channel of capacity 3, calls \<^verbatim>\<open>maybeCloneOrPull\<close>, and on
  return runs its deferred calls, last registered first: the receive from the channel,
  then \<^verbatim>\<open>wg.Done()\<close>. Its own return value is dropped by the \<^verbatim>\<open>go\<close> statement.

  The program counter of the main goroutine and of each task, the counter of the wait
  group and the buffer of the channel make the state. A schedule is a list of events; an
  event names the goroutine that takes its next step, and for a task the answers of the
  environment at that moment. A step that would block, or a goroutine that has finished,
  has no successor.
\<close>

datatype main_pc = M_Add nat | M_Go nat | M_Wait | M_Return

datatype task_pc =
    T_NotStarted
  | T_Send
  | T_Call
  | T_Recv "go_error option"
  | T_WgDone "go_error option"
  | T_Exit "go_error option"
  | T_Crash

record sync_state =
  mpc :: main_pc
  wg :: int
  concurent :: "go_int list"
  tasks :: "task_pc list"

datatype event = StepMain | StepTask nat env

definition loop_head :: "driverStats list \<Rightarrow> nat \<Rightarrow> main_pc" where
  "loop_head drivers i = (if i < length drivers then M_Add i else M_Wait)"

definition init :: "driverStats list \<Rightarrow> sync_state" where
  "init drivers =
     \<lparr>mpc = loop_head drivers 0, wg = 0, concurent = [],
      tasks = replicate (length drivers) T_NotStarted\<rparr>"

definition step_main :: "driverStats list \<Rightarrow> sync_state \<Rightarrow> sync_state option" where
  "step_main drivers s =
     (case mpc s of
        M_Add i \<Rightarrow> Some (s\<lparr>wg := wg s + 1, mpc := M_Go i\<rparr>)
      | M_Go i \<Rightarrow> Some (s\<lparr>tasks := (tasks s)[i := T_Send], mpc := loop_head drivers (Suc i)\<rparr>)
      | M_Wait \<Rightarrow> (if wg s = 0 then Some (s\<lparr>mpc := M_Return\<rparr>) else None)
      | M_Return \<Rightarrow> None)"

definition step_task :: "driverStats list \<Rightarrow> nat \<Rightarrow> env \<Rightarrow> sync_state \<Rightarrow> sync_state option" where
  "step_task drivers i w s =
     (if length (tasks s) \<le> i \<or> length drivers \<le> i then None
      else case tasks s ! i of
        T_NotStarted \<Rightarrow> None
      | T_Send \<Rightarrow>
          (if length (concurent s) < 3
           then Some (s\<lparr>concurent := concurent s @ [1], tasks := (tasks s)[i := T_Call]\<rparr>)
           else None)
      | T_Call \<Rightarrow> Some (s\<lparr>tasks := (tasks s)[i := T_Recv (maybeCloneOrPull w (drivers ! i))]\<rparr>)
      | T_Recv r \<Rightarrow>
          (case concurent s of
             [] \<Rightarrow> None
           | v # rest \<Rightarrow> Some (s\<lparr>concurent := rest, tasks := (tasks s)[i := T_WgDone r]\<rparr>))
      | T_WgDone r \<Rightarrow>
          (if wg s - 1 < 0 then Some (s\<lparr>tasks := (tasks s)[i := T_Crash]\<rparr>)
           else Some (s\<lparr>wg := wg s - 1, tasks := (tasks s)[i := T_Exit r]\<rparr>))
      | T_Exit r \<Rightarrow> None
      | T_Crash \<Rightarrow> None)"

definition step :: "driverStats list \<Rightarrow> event \<Rightarrow> sync_state \<Rightarrow> sync_state option" where
  "step drivers ev s =
     (case ev of
        StepMain \<Rightarrow> step_main drivers s
      | StepTask i w \<Rightarrow> step_task drivers i w s)"

fun exec :: "driverStats list \<Rightarrow> event list \<Rightarrow> sync_state \<Rightarrow> sync_state option" where
  "exec drivers [] s = Some s"
| "exec drivers (ev # evs) s =
     (case step drivers ev s of
        None \<Rightarrow> None
      | Some s' \<Rightarrow> exec drivers evs s')"

text \<open>
  The call as a whole, under a schedule: \<open>None\<close> when the schedule is not a complete
  execution (it asks for a blocked step, or stops before the main goroutine returns),
  otherwise the returned error.
\<close>

definition maybeCloneOrPullAll :: "env \<Rightarrow> driverStats list \<Rightarrow> event list \<Rightarrow> go_error option option" where
  "maybeCloneOrPullAll w drivers evs =
     (case os_MkdirAll w repoRootPath of
        Some err \<Rightarrow> Some (Some err)
      | None \<Rightarrow>
          (case exec drivers evs (init drivers) of
             None \<Rightarrow> None
           | Some s \<Rightarrow> (if mpc s = M_Return then Some None else None)))"

section \<open>The whole run\<close>

definition message :: "go_error \<Rightarrow> string" where
  "message e = (case e of GoError m \<Rightarrow> m)"

definition run :: "go_error + lang list \<Rightarrow> env \<Rightarrow> event list \<Rightarrow> (string \<times> store) outcome option" where
  "run discovered w evs =
     (case listDrivers discovered empty_store of
        Panic p \<Rightarrow> Some (Panic p)
      | Err err \<Rightarrow> Some (Err (GoError (''failed to list drivers: '' @ message err)))
      | Ok (drivers, st) \<Rightarrow>
          (case maybeCloneOrPullAll w drivers evs of
             None \<Rightarrow> None
           | Some (Some err) \<Rightarrow> Some (Err (GoError (''failed to pull driver repos: '' @ message err)))
           | Some None \<Rightarrow>
               (let uastTypes = findAllUastTypes
                in case analyze_loop drivers uastTypes st of
                     Panic p \<Rightarrow> Some (Panic p)
                   | Err e \<Rightarrow> Some (Err e)
                   | Ok st' \<Rightarrow> Some (Ok (formatMarkdownTable (cells st') drivers uastTypes [], st')))))"

section \<open>The report as the specification words it\<close>

text \<open>
  The specification describes the report by its cells and rows: a cell is the fixture
  count, a slash and the code count, each 0 when the type has no entry; a row is one
  catalog entry followed by one cell per driver; the report is the fixed header, the row
  of language names, the separator row, one row per catalog entry, and the footer.
  \<open>row_text\<close> is the text one pass of the loop over the catalog prints.
\<close>

definition row_text :: "heap \<Rightarrow> driverStats list \<Rightarrow> uastType \<Rightarrow> string" where
  "row_text h drivers typee =
     ''|'' @ fmt_s 25 (name typee) @ ''|'' @
     concat (map (\<lambda>dr. '' '' @ fmt_d (map_index h (fixturesUast dr) (name typee)) @ ''/'' @
                        fmt_d (map_index h (codeUast dr) (name typee)) @ '' |'') drivers) @
     ''\<newline>''"

definition spec_count :: "go_map \<Rightarrow> string \<Rightarrow> go_int" where
  "spec_count usage t = (case usage t of None \<Rightarrow> 0 | Some n \<Rightarrow> n)"

definition spec_cell :: "go_map \<Rightarrow> go_map \<Rightarrow> string \<Rightarrow> string" where
  "spec_cell fixtureUsage codeUsage t =
     '' '' @ fmt_d (spec_count fixtureUsage t) @ ''/'' @ fmt_d (spec_count codeUsage t) @ '' |''"

definition spec_cells :: "heap \<Rightarrow> driverStats list \<Rightarrow> string \<Rightarrow> string" where
  "spec_cells h ds t =
     concat (map (\<lambda>d. spec_cell (deref h (fixturesUast d)) (deref h (codeUast d)) t) ds)"

definition spec_header_row :: "driverStats list \<Rightarrow> string" where
  "spec_header_row ds = ''|'' @ fmt_s 25 '''' @ ''|'' @ concat (map (\<lambda>d. fmt_s 5 (language d) @ ''|'') ds)"

definition spec_separator_row :: "driverStats list \<Rightarrow> string" where
  "spec_separator_row ds = ''| :---------------------- |'' @ concat (map (\<lambda>d. '' :-- |'') ds)"

definition spec_counts :: "heap \<Rightarrow> uastType \<Rightarrow> driverStats \<Rightarrow> go_int \<times> go_int" where
  "spec_counts h t d = (map_index h (fixturesUast d) (name t), map_index h (codeUast d) (name t))"

definition spec_type_row :: "heap \<Rightarrow> driverStats list \<Rightarrow> uastType \<Rightarrow> string" where
  "spec_type_row h ds t =
     ''|'' @ fmt_s 25 (name t) @ ''|'' @
     concat (map (\<lambda>(f, c). '' '' @ fmt_d f @ ''/'' @ fmt_d c @ '' |'') (map (spec_counts h t) ds))"

definition spec_report :: "heap \<Rightarrow> driverStats list \<Rightarrow> uastType list \<Rightarrow> string" where
  "spec_report h ds ts =
     header @
     concat (map (\<lambda>line. line @ ''\<newline>'')
               (spec_header_row ds # spec_separator_row ds # map (spec_type_row h ds) ts)) @
     footer"

section \<open>The scenario of the specification\<close>

text \<open>
  Catalog \<open>[Identifier, Comment]\<close>; driver A with fixture usage \<open>{Identifier: 3}\<close> and code
  usage \<open>{Identifier: 1, Comment: 2}\<close>; driver B with two empty maps. A second store holds
  the same counts at other addresses, with an entry outside the catalog and nil maps for B.
\<close>

definition scenario_heap :: heap where
  "scenario_heap =
     (\<lambda>a. if a = 0 then [''Identifier'' \<mapsto> 3]
          else if a = 1 then [''Identifier'' \<mapsto> 1, ''Comment'' \<mapsto> 2]
          else Map.empty)"

definition scenario_A :: driverStats where
  "scenario_A = \<lparr>url = ''https://example.org/A'', language = ''A'', path = ''/A'',
                  fixturesUast = Some 0, codeUast = Some 1\<rparr>"

definition scenario_B :: driverStats where
  "scenario_B = \<lparr>url = ''https://example.org/B'', language = ''B'', path = ''/B'',
                  fixturesUast = Some 2, codeUast = Some 3\<rparr>"

definition scenario_catalog :: "uastType list" where
  "scenario_catalog = [\<lparr>name = ''Identifier''\<rparr>, \<lparr>name = ''Comment''\<rparr>]"

definition scenario_heap2 :: heap where
  "scenario_heap2 =
     (\<lambda>a. if a = 5 then [''Identifier'' \<mapsto> 3, ''Unused'' \<mapsto> 9]
          else if a = 6 then [''Comment'' \<mapsto> 2, ''Identifier'' \<mapsto> 1]
          else Map.empty)"

definition scenario_A2 :: driverStats where
  "scenario_A2 = \<lparr>url = ''git://elsewhere/A'', language = ''A'', path = ''/A'',
                   fixturesUast = Some 5, codeUast = Some 6\<rparr>"

definition scenario_B2 :: driverStats where
  "scenario_B2 = \<lparr>url = '''', language = ''B'', path = '''', fixturesUast = None, codeUast = None\<rparr>"

section \<open>Auxiliary functions for the driver list\<close>

text \<open>
  The last path segment of a URL is what follows its last slash. \<open>new_drivers\<close> and
  \<open>alloc_maps\<close> name the records and the store that the loop of \<open>listDrivers\<close> builds
  when every URL has a slash; they are used to state what the loop returns.
\<close>

definition last_segment :: "string \<Rightarrow> string" where
  "last_segment s = rev (takeWhile (\<lambda>c. c \<noteq> CHR ''/'') (rev s))"

fun new_drivers :: "nat \<Rightarrow> lang list \<Rightarrow> driverStats list" where
  "new_drivers a [] = []"
| "new_drivers a (l # langs) =
     \<lparr>url = RepositoryURL l, language = Language l,
      path = CHR ''/'' # last_segment (RepositoryURL l),
      fixturesUast = Some a, codeUast = Some (Suc a)\<rparr> # new_drivers (Suc (Suc a)) langs"

fun alloc_maps :: "nat \<Rightarrow> store \<Rightarrow> store" where
  "alloc_maps 0 st = st"
| "alloc_maps (Suc n) st = alloc_maps n (snd (make_map st))"

definition example_langs :: "lang list" where
  "example_langs =
     [\<lparr>Language = ''go'', RepositoryURL = ''https://github.com/bblfsh/go-driver''\<rparr>,
      \<lparr>Language = ''python'', RepositoryURL = ''https://github.com/bblfsh/python-driver''\<rparr>]"

definition example_langs_no_slash :: "lang list" where
  "example_langs_no_slash =
     [\<lparr>Language = ''go'', RepositoryURL = ''https://github.com/bblfsh/go-driver''\<rparr>,
      \<lparr>Language = ''local'', RepositoryURL = ''local-driver''\<rparr>]"

section \<open>Predicates and schedules for the goroutine model\<close>

text \<open>
  A task holds the limiter from its send on the channel until its deferred receive
  (\<open>holding\<close>); it counts in the wait group from its \<open>go\<close> statement until its
  \<open>wg.Done()\<close> (\<open>active\<close>). \<open>sync_inv\<close> is the invariant of the reachable states.
  \<open>seq_schedule\<close> is the schedule that runs every goroutine to its end right after it is
  started, each under its own environment; \<open>outcomes\<close> are the values the calls of
  \<open>maybeCloneOrPull\<close> return then. \<open>erase\<close> forgets the value a goroutine returned and
  \<open>thread\<close> the environment of an event, leaving only which goroutine moves.
\<close>

fun holding :: "task_pc \<Rightarrow> bool" where
  "holding T_Call = True"
| "holding (T_Recv r) = True"
| "holding pc = False"

fun active :: "task_pc \<Rightarrow> bool" where
  "active T_Send = True"
| "active T_Call = True"
| "active (T_Recv r) = True"
| "active (T_WgDone r) = True"
| "active pc = False"

fun is_exit :: "task_pc \<Rightarrow> bool" where
  "is_exit (T_Exit r) = True"
| "is_exit pc = False"

fun pending_add :: "main_pc \<Rightarrow> int" where
  "pending_add (M_Go i) = 1"
| "pending_add pc = 0"

fun spawned :: "driverStats list \<Rightarrow> main_pc \<Rightarrow> task_pc list \<Rightarrow> bool" where
  "spawned ds (M_Add i) ts = (i < length ds \<and> (\<forall>j<length ds. (ts ! j = T_NotStarted) = (i \<le> j)))"
| "spawned ds (M_Go i) ts = (i < length ds \<and> (\<forall>j<length ds. (ts ! j = T_NotStarted) = (i \<le> j)))"
| "spawned ds M_Wait ts = (\<forall>j<length ds. ts ! j \<noteq> T_NotStarted)"
| "spawned ds M_Return ts = (\<forall>j<length ds. is_exit (ts ! j))"

definition sync_inv :: "driverStats list \<Rightarrow> sync_state \<Rightarrow> bool" where
  "sync_inv ds s \<longleftrightarrow>
     length (tasks s) = length ds \<and>
     length (concurent s) = length (filter holding (tasks s)) \<and>
     length (concurent s) \<le> 3 \<and>
     wg s = int (length (filter active (tasks s))) + pending_add (mpc s) \<and>
     spawned ds (mpc s) (tasks s) \<and>
     T_Crash \<notin> set (tasks s)"

definition env_clone_ok :: env where
  "env_clone_ok =
     \<lparr>os_MkdirAll = (\<lambda>p. None),
      os_Stat = (\<lambda>p. Some (GoError ''no such file or directory'')),
      os_IsNotExist = (\<lambda>e. e = GoError ''no such file or directory''),
      cmd_Run = (\<lambda>argv dir. None),
      path_Join = (\<lambda>root p. ''drivers'' @ p)\<rparr>"

definition env_clone_fails :: env where
  "env_clone_fails =
     \<lparr>os_MkdirAll = (\<lambda>p. None),
      os_Stat = (\<lambda>p. Some (GoError ''no such file or directory'')),
      os_IsNotExist = (\<lambda>e. e = GoError ''no such file or directory''),
      cmd_Run = (\<lambda>argv dir. Some (GoError ''exit status 128'')),
      path_Join = (\<lambda>root p. ''drivers'' @ p)\<rparr>"

definition four_drivers :: "driverStats list" where
  "four_drivers =
     [\<lparr>url = ''https://github.com/bblfsh/go-driver'', language = ''go'', path = ''/go-driver'',
       fixturesUast = Some 0, codeUast = Some 1\<rparr>,
      \<lparr>url = ''https://github.com/bblfsh/python-driver'', language = ''python'', path = ''/python-driver'',
       fixturesUast = Some 2, codeUast = Some 3\<rparr>,
      \<lparr>url = ''https://github.com/bblfsh/java-driver'', language = ''java'', path = ''/java-driver'',
       fixturesUast = Some 4, codeUast = Some 5\<rparr>,
      \<lparr>url = ''https://github.com/bblfsh/ruby-driver'', language = ''ruby'', path = ''/ruby-driver'',
       fixturesUast = Some 6, codeUast = Some 7\<rparr>]"

definition three_holding_schedule :: "event list" where
  "three_holding_schedule =
     [StepMain, StepMain, StepMain, StepMain, StepMain, StepMain, StepMain, StepMain,
      StepTask 2 env_clone_ok, StepTask 0 env_clone_fails, StepTask 1 env_clone_ok]"

definition three_holding_state :: sync_state where
  "three_holding_state =
     \<lparr>mpc = M_Wait, wg = 4, concurent = [1, 1, 1], tasks = [T_Call, T_Call, T_Call, T_Send]\<rparr>"

fun seq_from :: "nat \<Rightarrow> env list \<Rightarrow> event list" where
  "seq_from i [] = [StepMain]"
| "seq_from i (w # ws) =
     [StepMain, StepMain, StepTask i w, StepTask i w, StepTask i w, StepTask i w] @
     seq_from (Suc i) ws"

definition seq_schedule :: "env list \<Rightarrow> event list" where
  "seq_schedule ws = seq_from 0 ws"

definition outcomes :: "env list \<Rightarrow> driverStats list \<Rightarrow> go_error option list" where
  "outcomes ws ds = map (\<lambda>(w, d). maybeCloneOrPull w d) (zip ws ds)"

fun returned :: "task_pc \<Rightarrow> go_error option option" where
  "returned (T_Recv r) = Some r"
| "returned (T_WgDone r) = Some r"
| "returned (T_Exit r) = Some r"
| "returned pc = None"

fun erase_pc :: "task_pc \<Rightarrow> task_pc" where
  "erase_pc (T_Recv r) = T_Recv None"
| "erase_pc (T_WgDone r) = T_WgDone None"
| "erase_pc (T_Exit r) = T_Exit None"
| "erase_pc pc = pc"

definition erase :: "sync_state \<Rightarrow> sync_state" where
  "erase s = s\<lparr>tasks := map erase_pc (tasks s)\<rparr>"

fun thread :: "event \<Rightarrow> nat option" where
  "thread StepMain = None"
| "thread (StepTask i w) = Some i"

section \<open>Environments and schedules used as examples\<close>

text \<open>
  Lists of environments for the four drivers: every clone fails, only the clone of driver
  0 fails, no clone fails; and the final state of the sequential schedule in the second
  case.
\<close>

definition all_fail_envs :: "env list" where
  "all_fail_envs = [env_clone_fails, env_clone_fails, env_clone_fails, env_clone_fails]"

definition one_fails_envs :: "env list" where
  "one_fails_envs = [env_clone_fails, env_clone_ok, env_clone_ok, env_clone_ok]"

definition none_fails_envs :: "env list" where
  "none_fails_envs = [env_clone_ok, env_clone_ok, env_clone_ok, env_clone_ok]"

definition clone_error :: go_error where
  "clone_error = GoError ''exit status 128''"

definition final_one_fails :: sync_state where
  "final_one_fails =
     \<lparr>mpc = M_Return, wg = 0, concurent = [],
      tasks = [T_Exit (Some clone_error), T_Exit None, T_Exit None, T_Exit None]\<rparr>"

section \<open>The store at the end of a run\<close>

text \<open>
  \<open>final_store\<close> names the store that the loop over \<open>analyzeFixtures\<close> and \<open>analyzeCode\<close>
  leaves when it starts from the drivers and the store that \<open>listDrivers\<close> built;
  \<open>two_envs\<close> lets the clone of the first of two drivers fail.
\<close>

definition final_store :: "lang list \<Rightarrow> store" where
  "final_store langs =
     (case analyze_loop (new_drivers 0 langs) findAllUastTypes
             (alloc_maps (2 * length langs) empty_store) of
        Ok st \<Rightarrow> st
      | Err e \<Rightarrow> empty_store
      | Panic p \<Rightarrow> empty_store)"

definition two_envs :: "env list" where
  "two_envs = [env_clone_fails, env_clone_ok]"

section \<open>The report: closed forms of the printing loops\<close>

lemma foldl_append_concat: "foldl (\<lambda>buf x. buf @ f x) out xs = out @ concat (map f xs)"
  by (induction xs arbitrary: out) simp_all

lemma formatMarkdownTableHeader_closed:
  "formatMarkdownTableHeader drivers out =
     out @ ''|'' @ fmt_s 25 '''' @ ''|'' @ concat (map (\<lambda>dr. fmt_s 5 (language dr) @ ''|'') drivers)
       @ ''\<newline>| :---------------------- |'' @ concat (map (\<lambda>dr. '' :-- |'') drivers) @ ''\<newline>''"
  unfolding formatMarkdownTableHeader_def Let_def foldl_append_concat by simp

lemma formatMarkdownTableHeader_out:
  "formatMarkdownTableHeader drivers out = out @ formatMarkdownTableHeader drivers []"
  unfolding formatMarkdownTableHeader_closed by simp

lemma row_loop_body:
  "(\<lambda>buf typee.
      let o1 = buf @ ''|'' @ fmt_s 25 (name typee) @ ''|'';
          o2 = foldl (\<lambda>p dr. p @ '' '' @ fmt_d (map_index h (fixturesUast dr) (name typee))
                                @ ''/'' @ fmt_d (map_index h (codeUast dr) (name typee))
                                @ '' |'') o1 drivers
      in o2 @ ''\<newline>'') = (\<lambda>buf typee. buf @ row_text h drivers typee)"
  unfolding Let_def foldl_append_concat row_text_def by simp

lemma formatMarkdownTable_closed:
  "formatMarkdownTable h drivers uastTypes out =
     out @ header @ formatMarkdownTableHeader drivers [] @
     concat (map (row_text h drivers) uastTypes) @ footer"
proof -
  have "formatMarkdownTable h drivers uastTypes out =
          foldl (\<lambda>buf typee. buf @ row_text h drivers typee)
            (formatMarkdownTableHeader drivers (out @ header)) uastTypes @ footer"
    unfolding formatMarkdownTable_def row_loop_body by (simp only: Let_def)
  also have "\<dots> = (out @ header) @ formatMarkdownTableHeader drivers [] @
                    concat (map (row_text h drivers) uastTypes) @ footer"
    by (subst formatMarkdownTableHeader_out) (simp only: foldl_append_concat append_assoc)
  finally show ?thesis by (simp only: append_assoc)
qed

lemma fmt_d_zero: "fmt_d 0 = ''0''"
  by (simp add: fmt_d_def fmt_digits.simps digit_char_def)

lemma row_text_spec_cells:
  "row_text h ds t = ''|'' @ fmt_s 25 (name t) @ ''|'' @ spec_cells h ds (name t) @ ''\<newline>''"
  by (simp add: row_text_def spec_cells_def spec_cell_def spec_count_def map_index_def)

lemma spec_cell_empty: "spec_cell Map.empty Map.empty t = '' 0/0 |''"
  by (simp add: spec_cell_def spec_count_def fmt_d_zero)

lemma spec_cells_split:
  "spec_cells h (ds1 @ d # ds2) t =
     spec_cells h ds1 t @ spec_cell (deref h (fixturesUast d)) (deref h (codeUast d)) t @ spec_cells h ds2 t"
  by (simp add: spec_cells_def)

text \<open>
  Claim C4. For every catalog type \<open>t\<close> and driver \<open>d\<close> the cell of the report is the
  fixture count of \<open>d\<close> at \<open>t\<close>, a slash and the code count of \<open>d\<close> at \<open>t\<close>, where a key
  that is absent from the map counts as 0 and is never an error: the text printed by
  \<open>formatMarkdownTable\<close> is, row by row and driver by driver, the cell \<open>spec_cell\<close> of the
  specification. In particular a driver whose two maps are empty has the cell \<open>0/0\<close> in
  every row, at its own column, whatever the drivers before and after it hold.
\<close>

theorem cell_default_zero:
  "formatMarkdownTable h drivers uastTypes out =
     out @ header @ formatMarkdownTableHeader drivers [] @
     concat (map (\<lambda>t. ''|'' @ fmt_s 25 (name t) @ ''|'' @ spec_cells h drivers (name t) @ ''\<newline>'')
               uastTypes) @
     footer
   \<and> (deref h (fixturesUast d) = Map.empty \<and> deref h (codeUast d) = Map.empty \<longrightarrow>
        formatMarkdownTable h (ds1 @ d # ds2) uastTypes out =
          out @ header @ formatMarkdownTableHeader (ds1 @ d # ds2) [] @
          concat (map (\<lambda>t. ''|'' @ fmt_s 25 (name t) @ ''|'' @
                            spec_cells h ds1 (name t) @ '' 0/0 |'' @ spec_cells h ds2 (name t) @
                            ''\<newline>'') uastTypes) @
          footer)"
proof -
  have rows: "row_text h ds = (\<lambda>t. ''|'' @ fmt_s 25 (name t) @ ''|'' @ spec_cells h ds (name t) @ ''\<newline>'')" for ds
    by (rule ext) (rule row_text_spec_cells)
  have first: "formatMarkdownTable h ds uastTypes out =
     out @ header @ formatMarkdownTableHeader ds [] @
     concat (map (\<lambda>t. ''|'' @ fmt_s 25 (name t) @ ''|'' @ spec_cells h ds (name t) @ ''\<newline>'')
               uastTypes) @ footer" for ds
    by (simp only: formatMarkdownTable_closed rows)
  have second: "formatMarkdownTable h (ds1 @ d # ds2) uastTypes out =
          out @ header @ formatMarkdownTableHeader (ds1 @ d # ds2) [] @
          concat (map (\<lambda>t. ''|'' @ fmt_s 25 (name t) @ ''|'' @
                            spec_cells h ds1 (name t) @ '' 0/0 |'' @ spec_cells h ds2 (name t) @
                            ''\<newline>'') uastTypes) @
          footer"
    if "deref h (fixturesUast d) = Map.empty" and "deref h (codeUast d) = Map.empty"
    by (simp only: first spec_cells_split that spec_cell_empty append_assoc)
  from first second show ?thesis by blast
qed

text \<open>The hypothesis of C4 at driver B of the scenario, which stands after driver A.\<close>

theorem cell_default_zero_witness:
  "(deref scenario_heap (fixturesUast scenario_B) = Map.empty \<and>
    deref scenario_heap (codeUast scenario_B) = Map.empty) \<and>
   formatMarkdownTable scenario_heap ([scenario_A] @ scenario_B # []) scenario_catalog [] =
     [] @ header @ formatMarkdownTableHeader ([scenario_A] @ scenario_B # []) [] @
     concat (map (\<lambda>t. ''|'' @ fmt_s 25 (name t) @ ''|'' @
                       spec_cells scenario_heap [scenario_A] (name t) @ '' 0/0 |'' @
                       spec_cells scenario_heap [] (name t) @ ''\<newline>'') scenario_catalog) @
     footer"
proof -
  have h: "deref scenario_heap (fixturesUast scenario_B) = Map.empty \<and>
           deref scenario_heap (codeUast scenario_B) = Map.empty"
    by (simp add: deref_def scenario_heap_def scenario_B_def)
  from h cell_default_zero [of scenario_heap "[scenario_A] @ scenario_B # []" scenario_catalog "[]"
                               scenario_B "[scenario_A]" "[]"]
  show ?thesis by blast
qed

text \<open>
  Claim C5. For the catalog \<open>[Identifier, Comment]\<close> and the drivers A (fixture usage
  \<open>{Identifier: 3}\<close>, code usage \<open>{Identifier: 1, Comment: 2}\<close>) and B (empty maps) the
  formatter prints, between the fixed header and footer, a header row with the columns A
  then B, the separator row, the row of Identifier with the cells 3/1 and 0/0 and the row
  of Comment with the cells 0/2 and 0/0.
\<close>

theorem scenario_report:
  "formatMarkdownTable scenario_heap [scenario_A, scenario_B] scenario_catalog [] =
     header @
     ''|                         |    A|    B|\<newline>'' @
     ''| :---------------------- | :-- | :-- |\<newline>'' @
     ''|               Identifier| 3/1 | 0/0 |\<newline>'' @
     ''|                  Comment| 0/2 | 0/0 |\<newline>'' @
     footer"
  by code_simp

lemma row_text_spec_type_row: "row_text h ds t = spec_type_row h ds t @ ''\<newline>''"
  by (simp add: row_text_def spec_type_row_def spec_counts_def comp_def)

lemma header_spec_rows:
  "formatMarkdownTableHeader ds [] = spec_header_row ds @ ''\<newline>'' @ spec_separator_row ds @ ''\<newline>''"
  by (simp add: formatMarkdownTableHeader_closed spec_header_row_def spec_separator_row_def)

lemma formatMarkdownTable_spec_report:
  "formatMarkdownTable h ds ts out = out @ spec_report h ds ts"
proof -
  have "row_text h ds = (\<lambda>t. spec_type_row h ds t @ ''\<newline>'')"
    by (rule ext) (rule row_text_spec_type_row)
  then have "concat (map (row_text h ds) ts) = concat (map (\<lambda>line. line @ ''\<newline>'') (map (spec_type_row h ds) ts))"
    by (simp add: comp_def)
  then show ?thesis
    by (simp add: formatMarkdownTable_closed header_spec_rows spec_report_def)
qed

lemma spec_header_row_cong:
  "map language ds' = map language ds \<Longrightarrow> spec_header_row ds' = spec_header_row ds"
proof -
  assume eq: "map language ds' = map language ds"
  have e: "spec_header_row xs =
        ''|'' @ fmt_s 25 [] @ ''|'' @ concat (map (\<lambda>l. fmt_s 5 l @ ''|'') (map language xs))" for xs
    by (simp add: spec_header_row_def comp_def)
  show ?thesis by (simp only: e eq)
qed

lemma spec_separator_row_cong:
  "length ds' = length ds \<Longrightarrow> spec_separator_row ds' = spec_separator_row ds"
proof -
  assume eq: "length ds' = length ds"
  have e: "spec_separator_row xs =
        ''| :---------------------- |'' @ concat (replicate (length xs) '' :-- |'')" for xs
    by (simp add: spec_separator_row_def map_replicate_const)
  show ?thesis by (simp only: e eq)
qed

text \<open>
  Claim C6. The report is a function of the driver records and the catalog: the text
  appended to standard output is \<open>spec_report\<close>, whose header row lists the languages in
  the order of the driver list, whose rows follow the catalog in its order, one row per
  entry, and whose cells follow the driver list in every row. Two invocations print the
  same bytes as soon as the languages and the counts at the catalog's names agree;
  identical records and catalog are the special case.
\<close>

theorem report_order_deterministic:
  "formatMarkdownTable h drivers uastTypes out = out @ spec_report h drivers uastTypes
   \<and> (map language ds' = map language drivers \<and>
       map (\<lambda>t. map (spec_counts h' t) ds') uastTypes =
         map (\<lambda>t. map (spec_counts h t) drivers) uastTypes \<longrightarrow>
       formatMarkdownTable h' ds' uastTypes out = formatMarkdownTable h drivers uastTypes out)"
proof (intro conjI impI)
  show "formatMarkdownTable h drivers uastTypes out = out @ spec_report h drivers uastTypes"
    by (rule formatMarkdownTable_spec_report)
next
  assume a: "map language ds' = map language drivers \<and>
       map (\<lambda>t. map (spec_counts h' t) ds') uastTypes =
         map (\<lambda>t. map (spec_counts h t) drivers) uastTypes"
  then have len: "length ds' = length drivers"
    using map_eq_imp_length_eq by blast
  from a have counts: "\<forall>t \<in> set uastTypes. map (spec_counts h' t) ds' = map (spec_counts h t) drivers"
    by (simp add: map_eq_conv)
  have rows: "map (spec_type_row h' ds') uastTypes = map (spec_type_row h drivers) uastTypes"
    using counts by (intro map_cong refl) (simp add: spec_type_row_def)
  show "formatMarkdownTable h' ds' uastTypes out = formatMarkdownTable h drivers uastTypes out"
    by (simp only: formatMarkdownTable_spec_report spec_report_def rows
        spec_header_row_cong [OF conjunct1 [OF a]] spec_separator_row_cong [OF len])
qed

text \<open>
  The hypothesis of C6 at the scenario and at a second store that holds the same counts
  at other addresses.
\<close>

theorem report_order_deterministic_witness:
  "(map language [scenario_A2, scenario_B2] = map language [scenario_A, scenario_B] \<and>
    map (\<lambda>t. map (spec_counts scenario_heap2 t) [scenario_A2, scenario_B2]) scenario_catalog =
      map (\<lambda>t. map (spec_counts scenario_heap t) [scenario_A, scenario_B]) scenario_catalog) \<and>
   formatMarkdownTable scenario_heap2 [scenario_A2, scenario_B2] scenario_catalog [] =
   formatMarkdownTable scenario_heap [scenario_A, scenario_B] scenario_catalog []"
proof -
  have h: "map language [scenario_A2, scenario_B2] = map language [scenario_A, scenario_B] \<and>
    map (\<lambda>t. map (spec_counts scenario_heap2 t) [scenario_A2, scenario_B2]) scenario_catalog =
      map (\<lambda>t. map (spec_counts scenario_heap t) [scenario_A, scenario_B]) scenario_catalog"
    by (simp add: scenario_A_def scenario_B_def scenario_A2_def scenario_B2_def scenario_catalog_def
        spec_counts_def map_index_def deref_def scenario_heap_def scenario_heap2_def)
  from h report_order_deterministic [of scenario_heap "[scenario_A, scenario_B]" scenario_catalog "[]"
      "[scenario_A2, scenario_B2]" scenario_heap2]
  show ?thesis by blast
qed

section \<open>Listing the drivers: the local path\<close>

lemma last_index_from_range: "- 1 \<le> last_index_from s sub i \<and> last_index_from s sub i \<le> int i"
  by (induction i) auto

lemma last_index_from_none:
  "last_index_from s sub i = - 1 \<longleftrightarrow> (\<forall>j\<le>i. take (length sub) (drop j s) \<noteq> sub)"
proof (induction i)
  case 0
  then show ?case by simp
next
  case (Suc i)
  show ?case
  proof (cases "take (length sub) (drop (Suc i) s) = sub")
    case True
    then show ?thesis by auto
  next
    case False
    then show ?thesis using Suc by (auto simp: le_Suc_eq)
  qed
qed

lemma last_index_from_some:
  "last_index_from s sub i = int k \<Longrightarrow>
     k \<le> i \<and> take (length sub) (drop k s) = sub \<and> (\<forall>j. k < j \<and> j \<le> i \<longrightarrow> take (length sub) (drop j s) \<noteq> sub)"
proof (induction i)
  case 0
  then show ?case by (auto split: if_splits)
next
  case (Suc i)
  show ?case
  proof (cases "take (length sub) (drop (Suc i) s) = sub")
    case True
    with Suc.prems have "k = Suc i" by simp
    with True show ?thesis by auto
  next
    case False
    with Suc.prems have "last_index_from s sub i = int k" by simp
    from Suc.IH [OF this] False show ?thesis by (auto simp: le_Suc_eq)
  qed
qed

lemma take1_drop_eq: "take (Suc 0) (drop j s) = [c] \<longleftrightarrow> j < length s \<and> s ! j = c"
  by (cases "j < length s") (auto simp: take_Suc_conv_app_nth hd_drop_conv_nth take_Suc)

lemma LastIndex_slash_none: "LastIndex s ''/'' = - 1 \<longleftrightarrow> CHR ''/'' \<notin> set s"
proof (cases s)
  case Nil
  then show ?thesis by (simp add: LastIndex_def)
next
  case (Cons a list)
  then have "LastIndex s ''/'' = last_index_from s ''/'' (length s - 1)" by (simp add: LastIndex_def)
  moreover have "j \<le> length s - 1 \<longleftrightarrow> j < length s" for j
    using Cons by auto
  then have "(\<forall>j\<le>length s - 1. take (Suc 0) (drop j s) \<noteq> ''/'') \<longleftrightarrow> CHR ''/'' \<notin> set s"
    by (auto simp: take1_drop_eq in_set_conv_nth)
  ultimately show ?thesis by (simp add: last_index_from_none)
qed

lemma slice_from_no_slash:
  "CHR ''/'' \<notin> set s \<Longrightarrow> slice_from s (LastIndex s ''/'') = Panic (SliceBoundsOutOfRange (- 1))"
  by (simp add: LastIndex_slash_none [THEN iffD2] slice_from_def)

lemma last_segment_append: "CHR ''/'' \<notin> set seg \<Longrightarrow> last_segment (pre @ CHR ''/'' # seg) = seg"
proof -
  assume nos: "CHR ''/'' \<notin> set seg"
  have "takeWhile (\<lambda>c. c \<noteq> CHR ''/'') (rev seg @ CHR ''/'' # rev pre) =
        takeWhile (\<lambda>c. c \<noteq> CHR ''/'') (rev seg)"
    by (rule takeWhile_tail) simp
  also have "\<dots> = rev seg"
    using nos by (auto simp: takeWhile_eq_all_conv)
  finally show ?thesis by (simp add: last_segment_def)
qed

lemma slice_from_slash:
  assumes "CHR ''/'' \<in> set s"
  shows "slice_from s (LastIndex s ''/'') = Ok (CHR ''/'' # last_segment s)"
proof -
  from assms have ne: "s \<noteq> []" by auto
  then have L: "LastIndex s ''/'' = last_index_from s ''/'' (length s - 1)"
    by (cases s) (simp_all add: LastIndex_def)
  have "LastIndex s ''/'' \<noteq> - 1" using assms by (simp add: LastIndex_slash_none)
  with last_index_from_range [of s "''/''" "length s - 1"] L
  obtain k where k: "LastIndex s ''/'' = int k"
    using zero_le_imp_eq_int [of "LastIndex s ''/''"] by auto
  from last_index_from_some [of s "''/''" "length s - 1" k] k L
  have kb: "k \<le> length s - 1" and at: "take (Suc 0) (drop k s) = ''/''"
    and after: "\<forall>j. k < j \<and> j \<le> length s - 1 \<longrightarrow> take (Suc 0) (drop j s) \<noteq> ''/''"
    by auto
  from at have klt: "k < length s" and sk: "s ! k = CHR ''/''" by (auto simp: take1_drop_eq)
  have nos: "CHR ''/'' \<notin> set (drop (Suc k) s)"
  proof
    assume "CHR ''/'' \<in> set (drop (Suc k) s)"
    then obtain i where "i < length (drop (Suc k) s)" "drop (Suc k) s ! i = CHR ''/''"
      by (auto simp: in_set_conv_nth)
    then have "Suc k + i < length s" "s ! (Suc k + i) = CHR ''/''" by auto
    with after [rule_format, of "Suc k + i"] show False by (auto simp: take1_drop_eq)
  qed
  have split: "s = take k s @ CHR ''/'' # drop (Suc k) s"
    using klt sk by (metis id_take_nth_drop)
  have "last_segment s = drop (Suc k) s"
    using last_segment_append [OF nos, of "take k s"] split by simp
  moreover have "drop k s = CHR ''/'' # drop (Suc k) s"
    using klt sk by (metis Cons_nth_drop_Suc)
  ultimately show ?thesis using k klt by (simp add: slice_from_def)
qed

lemma listDrivers_loop_panic:
  "list_ex (\<lambda>l. CHR ''/'' \<notin> set (RepositoryURL l)) langs \<Longrightarrow>
     listDrivers_loop langs ds st = Panic (SliceBoundsOutOfRange (- 1))"
proof (induction langs arbitrary: ds st)
  case Nil
  then show ?case by simp
next
  case (Cons l langs)
  show ?case
  proof (cases "CHR ''/'' \<in> set (RepositoryURL l)")
    case True
    with Cons.prems have "list_ex (\<lambda>l. CHR ''/'' \<notin> set (RepositoryURL l)) langs" by simp
    with True Cons.IH show ?thesis
      by (simp add: slice_from_slash split: prod.splits)
  next
    case False
    then show ?thesis by (simp add: slice_from_no_slash)
  qed
qed

lemma listDrivers_loop_ok:
  "list_all (\<lambda>l. CHR ''/'' \<in> set (RepositoryURL l)) langs \<Longrightarrow>
     listDrivers_loop langs ds st =
       Ok (ds @ new_drivers (free st) langs, alloc_maps (2 * length langs) st)"
proof (induction langs arbitrary: ds st)
  case Nil
  then show ?case by simp
next
  case (Cons l langs)
  then have sl: "CHR ''/'' \<in> set (RepositoryURL l)"
    and rest: "list_all (\<lambda>l. CHR ''/'' \<in> set (RepositoryURL l)) langs" by simp_all
  show ?case
    by (simp add: slice_from_slash [OF sl] Cons.IH [OF rest] make_map_def)
qed

lemma path_new_drivers:
  "map path (new_drivers a langs) = map (\<lambda>l. CHR ''/'' # last_segment (RepositoryURL l)) langs"
  by (induction langs arbitrary: a) simp_all

text \<open>
  Claim C10. The local path of a driver is the repository URL sliced from the index that
  \<open>strings.LastIndex(url, "/")\<close> returns. When some driver's URL contains no slash the index
  is -1 and the slice expression panics, so \<open>listDrivers\<close> returns no list at all; when
  every URL contains a slash, each stored path is the slash itself followed by the last
  path segment, not the segment alone.
\<close>

theorem listDrivers_path_partial:
  "(list_ex (\<lambda>l. CHR ''/'' \<notin> set (RepositoryURL l)) langs \<longrightarrow>
      listDrivers (Inr langs) st = Panic (SliceBoundsOutOfRange (- 1)))
   \<and> (list_all (\<lambda>l. CHR ''/'' \<in> set (RepositoryURL l)) langs \<longrightarrow>
        (case listDrivers (Inr langs) st of
           Ok (ds, st') \<Rightarrow>
             map path ds = map (\<lambda>l. CHR ''/'' # last_segment (RepositoryURL l)) langs
         | Err e \<Rightarrow> False
         | Panic p \<Rightarrow> False))"
  by (simp add: listDrivers_def listDrivers_loop_panic listDrivers_loop_ok path_new_drivers)

text \<open>
  Both hypotheses of C10: a registry with the URL \<open>local-driver\<close>, and one with two
  GitHub URLs, whose paths come out as \<open>/go-driver\<close> and \<open>/python-driver\<close>.
\<close>

theorem listDrivers_path_partial_witness:
  "list_ex (\<lambda>l. CHR ''/'' \<notin> set (RepositoryURL l)) example_langs_no_slash \<and>
   listDrivers (Inr example_langs_no_slash) empty_store = Panic (SliceBoundsOutOfRange (- 1)) \<and>
   list_all (\<lambda>l. CHR ''/'' \<in> set (RepositoryURL l)) example_langs \<and>
   (case listDrivers (Inr example_langs) empty_store of
      Ok (ds, st') \<Rightarrow> map path ds = [''/go-driver'', ''/python-driver'']
    | Err e \<Rightarrow> False
    | Panic p \<Rightarrow> False)"
proof -
  have h1: "list_ex (\<lambda>l. CHR ''/'' \<notin> set (RepositoryURL l)) example_langs_no_slash"
    by (simp add: example_langs_no_slash_def)
  have h2: "list_all (\<lambda>l. CHR ''/'' \<in> set (RepositoryURL l)) example_langs"
    by (simp add: example_langs_def)
  have segs: "map (\<lambda>l. CHR ''/'' # last_segment (RepositoryURL l)) example_langs =
              [''/go-driver'', ''/python-driver'']"
    by (simp add: example_langs_def last_segment_def)
  from h1 h2 segs
    listDrivers_path_partial [of example_langs_no_slash empty_store]
    listDrivers_path_partial [of example_langs empty_store]
  show ?thesis by (simp split: outcome.splits prod.splits)
qed

section \<open>The goroutines: invariant of every reachable state\<close>

lemma filter_update_count:
  "i < length xs \<Longrightarrow>
     length (filter P (xs[i := y])) + (if P (xs ! i) then 1 else 0) =
     length (filter P xs) + (if P y then 1 else 0)"
proof (induction xs arbitrary: i)
  case Nil
  then show ?case by simp
next
  case (Cons x xs)
  show ?case
  proof (cases i)
    case 0
    then show ?thesis by simp
  next
    case (Suc k)
    with Cons.prems have "k < length xs" by simp
    from Cons.IH [OF this] Suc show ?thesis by simp
  qed
qed

lemma filter_update_same:
  "i < length xs \<Longrightarrow> P (xs ! i) = P y \<Longrightarrow> length (filter P (xs[i := y])) = length (filter P xs)"
  using filter_update_count [of i xs P y] by (simp split: if_splits)

lemma filter_update_gain:
  "i < length xs \<Longrightarrow> \<not> P (xs ! i) \<Longrightarrow> P y \<Longrightarrow> length (filter P (xs[i := y])) = Suc (length (filter P xs))"
  using filter_update_count [of i xs P y] by simp

lemma filter_update_lose:
  "i < length xs \<Longrightarrow> P (xs ! i) \<Longrightarrow> \<not> P y \<Longrightarrow> Suc (length (filter P (xs[i := y]))) = length (filter P xs)"
  using filter_update_count [of i xs P y] by simp

lemma filter_pos: "i < length xs \<Longrightarrow> P (xs ! i) \<Longrightarrow> 0 < length (filter P xs)"
  by (metis filter_empty_conv length_greater_0_conv nth_mem)

lemma sync_inv_init: "sync_inv ds (init ds)"
  by (auto simp: sync_inv_def init_def loop_head_def)

lemma crash_update: "T_Crash \<notin> set xs \<Longrightarrow> y \<noteq> T_Crash \<Longrightarrow> T_Crash \<notin> set (xs[i := y])"
  by (metis in_set_conv_nth length_list_update nth_list_update_eq nth_list_update_neq)

lemma not_active_cases:
  "\<not> active pc \<Longrightarrow> pc \<noteq> T_NotStarted \<Longrightarrow> pc \<noteq> T_Crash \<Longrightarrow> is_exit pc"
  by (cases pc) simp_all

lemma step_main_inv:
  assumes inv: "sync_inv ds s" and st: "step_main ds s = Some s'"
  shows "sync_inv ds s'"
proof (cases "mpc s")
  case (M_Add i)
  with st have s': "s' = s\<lparr>wg := wg s + 1, mpc := M_Go i\<rparr>" by (simp add: step_main_def)
  from inv M_Add show ?thesis unfolding s' by (simp add: sync_inv_def)
next
  case (M_Go i)
  with st have s': "s' = s\<lparr>tasks := (tasks s)[i := T_Send], mpc := loop_head ds (Suc i)\<rparr>"
    by (simp add: step_main_def)
  from inv M_Go have len: "length (tasks s) = length ds" and i: "i < length ds"
    and ns: "\<forall>j<length ds. (tasks s ! j = T_NotStarted) = (i \<le> j)"
    and wgs: "wg s = int (length (filter active (tasks s))) + 1"
    and ch: "length (concurent s) = length (filter holding (tasks s))" "length (concurent s) \<le> 3"
    and cr: "T_Crash \<notin> set (tasks s)"
    by (simp_all add: sync_inv_def)
  from ns i have ti: "tasks s ! i = T_NotStarted" by simp
  have h: "length (filter holding ((tasks s)[i := T_Send])) = length (filter holding (tasks s))"
    using i len ti by (simp add: filter_update_same)
  have a: "length (filter active ((tasks s)[i := T_Send])) = Suc (length (filter active (tasks s)))"
    using i len ti by (simp add: filter_update_gain)
  have sp: "spawned ds (loop_head ds (Suc i)) ((tasks s)[i := T_Send])"
    using ns i len by (auto simp: loop_head_def nth_list_update)
  have pa: "pending_add (loop_head ds (Suc i)) = 0" by (simp add: loop_head_def)
  show ?thesis unfolding s' sync_inv_def
    using len h a sp pa wgs ch cr by (simp add: crash_update)
next
  case M_Wait
  with st have w0: "wg s = 0" and s': "s' = s\<lparr>mpc := M_Return\<rparr>"
    by (simp_all add: step_main_def split: if_splits)
  from inv M_Wait w0 have len: "length (tasks s) = length ds"
    and na: "length (filter active (tasks s)) = 0"
    and ns: "\<forall>j<length ds. tasks s ! j \<noteq> T_NotStarted"
    and cr: "T_Crash \<notin> set (tasks s)"
    by (simp_all add: sync_inv_def)
  have "is_exit (tasks s ! j)" if "j < length ds" for j
  proof -
    from that len have mem: "tasks s ! j \<in> set (tasks s)" by simp
    with na have "\<not> active (tasks s ! j)" by (auto simp: filter_empty_conv)
    moreover from ns that have "tasks s ! j \<noteq> T_NotStarted" by simp
    moreover from cr mem have "tasks s ! j \<noteq> T_Crash" by auto
    ultimately show ?thesis by (rule not_active_cases)
  qed
  with inv M_Wait show ?thesis unfolding s' by (simp add: sync_inv_def)
next
  case M_Return
  with st show ?thesis by (simp add: step_main_def)
qed

lemma spawned_update:
  assumes "spawned ds pc ts" and "i < length ds" and "length ts = length ds"
    and "ts ! i \<noteq> T_NotStarted" and "y \<noteq> T_NotStarted" and "is_exit (ts ! i) \<longrightarrow> is_exit y"
  shows "spawned ds pc (ts[i := y])"
  using assms by (cases pc) (auto simp: nth_list_update)

lemma step_task_inv:
  assumes inv: "sync_inv ds s" and st: "step_task ds i w s = Some s'"
  shows "sync_inv ds s'"
proof -
  from st have i: "i < length (tasks s)" "i < length ds"
    by (auto simp: step_task_def split: if_splits)
  from inv have len: "length (tasks s) = length ds"
    and ch: "length (concurent s) = length (filter holding (tasks s))"
    and cap: "length (concurent s) \<le> 3"
    and wgs: "wg s = int (length (filter active (tasks s))) + pending_add (mpc s)"
    and sp: "spawned ds (mpc s) (tasks s)"
    and cr: "T_Crash \<notin> set (tasks s)"
    by (simp_all add: sync_inv_def)
  show ?thesis
  proof (cases "tasks s ! i")
    case T_NotStarted
    with st i show ?thesis by (simp add: step_task_def)
  next
    case T_Send
    with st i have room: "length (concurent s) < 3"
      and s': "s' = s\<lparr>concurent := concurent s @ [1], tasks := (tasks s)[i := T_Call]\<rparr>"
      by (simp_all add: step_task_def split: if_splits)
    have h: "length (filter holding ((tasks s)[i := T_Call])) = Suc (length (filter holding (tasks s)))"
      using i T_Send by (simp add: filter_update_gain)
    have a: "length (filter active ((tasks s)[i := T_Call])) = length (filter active (tasks s))"
      using i T_Send by (simp add: filter_update_same)
    have "spawned ds (mpc s) ((tasks s)[i := T_Call])"
      using sp i len T_Send by (intro spawned_update) simp_all
    then show ?thesis unfolding s' sync_inv_def
      using len h a ch room wgs cr by (simp add: crash_update)
  next
    case T_Call
    with st i have s': "s' = s\<lparr>tasks := (tasks s)[i := T_Recv (maybeCloneOrPull w (ds ! i))]\<rparr>"
      by (simp add: step_task_def)
    let ?y = "T_Recv (maybeCloneOrPull w (ds ! i))"
    have h: "length (filter holding ((tasks s)[i := ?y])) = length (filter holding (tasks s))"
      using i T_Call by (simp add: filter_update_same)
    have a: "length (filter active ((tasks s)[i := ?y])) = length (filter active (tasks s))"
      using i T_Call by (simp add: filter_update_same)
    have "spawned ds (mpc s) ((tasks s)[i := ?y])"
      using sp i len T_Call by (intro spawned_update) simp_all
    then show ?thesis unfolding s' sync_inv_def
      using len h a ch cap wgs cr by (simp add: crash_update)
  next
    case (T_Recv r)
    with st i obtain v rest where c: "concurent s = v # rest"
      and s': "s' = s\<lparr>concurent := rest, tasks := (tasks s)[i := T_WgDone r]\<rparr>"
      by (auto simp: step_task_def split: list.splits)
    have h: "Suc (length (filter holding ((tasks s)[i := T_WgDone r]))) = length (filter holding (tasks s))"
      using i T_Recv by (simp add: filter_update_lose)
    have a: "length (filter active ((tasks s)[i := T_WgDone r])) = length (filter active (tasks s))"
      using i T_Recv by (simp add: filter_update_same)
    have "spawned ds (mpc s) ((tasks s)[i := T_WgDone r])"
      using sp i len T_Recv by (intro spawned_update) simp_all
    then show ?thesis unfolding s' sync_inv_def
      using len h a ch cap wgs cr c by (simp add: crash_update)
  next
    case (T_WgDone r)
    have pos: "0 < length (filter active (tasks s))"
      using i T_WgDone by (intro filter_pos [of i]) simp_all
    have "0 \<le> pending_add (mpc s)" by (cases "mpc s") simp_all
    with pos wgs have "\<not> wg s - 1 < 0" by linarith
    with st i T_WgDone have s': "s' = s\<lparr>wg := wg s - 1, tasks := (tasks s)[i := T_Exit r]\<rparr>"
      by (simp add: step_task_def)
    have h: "length (filter holding ((tasks s)[i := T_Exit r])) = length (filter holding (tasks s))"
      using i T_WgDone by (simp add: filter_update_same)
    have a: "Suc (length (filter active ((tasks s)[i := T_Exit r]))) = length (filter active (tasks s))"
      using i T_WgDone by (simp add: filter_update_lose)
    have "spawned ds (mpc s) ((tasks s)[i := T_Exit r])"
      using sp i len T_WgDone by (intro spawned_update) simp_all
    then show ?thesis unfolding s' sync_inv_def
      using len h a ch cap wgs cr by (simp add: crash_update)
  next
    case (T_Exit r)
    with st i show ?thesis by (simp add: step_task_def)
  next
    case T_Crash
    with st i show ?thesis by (simp add: step_task_def)
  qed
qed

lemma step_inv: "sync_inv ds s \<Longrightarrow> step ds ev s = Some s' \<Longrightarrow> sync_inv ds s'"
  by (cases ev) (auto simp: step_def intro: step_main_inv step_task_inv)

lemma exec_inv: "sync_inv ds s \<Longrightarrow> exec ds evs s = Some s' \<Longrightarrow> sync_inv ds s'"
proof (induction evs arbitrary: s)
  case Nil
  then show ?case by simp
next
  case (Cons ev evs)
  then show ?case by (auto split: option.splits dest: step_inv)
qed

lemma reachable_inv: "exec ds evs (init ds) = Some s \<Longrightarrow> sync_inv ds s"
  using exec_inv [OF sync_inv_init] .

text \<open>
  Claim C2. Whatever the number of drivers and whatever the schedule, in every reachable
  state at most three tasks hold the limiter (have sent on the channel and not yet
  received from it), so at most three clone or pull operations run at once, and the
  number of holders is the number of values buffered in the channel. The limiter is
  released on every exit path: whatever value \<open>maybeCloneOrPull\<close> returns, error or nil,
  the task's next step is the deferred receive, it is never blocked, and it frees one slot.
\<close>

theorem limiter_bound:
  assumes "exec drivers evs (init drivers) = Some s"
  shows "length (filter holding (tasks s)) \<le> 3 \<and>
         length (concurent s) = length (filter holding (tasks s)) \<and>
         (i < length drivers \<and> tasks s ! i = T_Call \<longrightarrow>
            exec drivers [StepTask i w, StepTask i w'] s =
              Some (s\<lparr>concurent := tl (concurent s),
                      tasks := (tasks s)[i := T_WgDone (maybeCloneOrPull w (drivers ! i))]\<rparr>))"
proof -
  from assms have inv: "sync_inv drivers s" by (rule reachable_inv)
  then have len: "length (tasks s) = length drivers"
    and ch: "length (concurent s) = length (filter holding (tasks s))"
    and cap: "length (concurent s) \<le> 3"
    by (simp_all add: sync_inv_def)
  have rel: "exec drivers [StepTask i w, StepTask i w'] s =
              Some (s\<lparr>concurent := tl (concurent s),
                      tasks := (tasks s)[i := T_WgDone (maybeCloneOrPull w (drivers ! i))]\<rparr>)"
    if i: "i < length drivers" and c: "tasks s ! i = T_Call"
  proof -
    have "0 < length (filter holding (tasks s))"
      using i len c by (intro filter_pos [of i]) simp_all
    with ch obtain v rest where "concurent s = v # rest" by (cases "concurent s") simp_all
    with i len c show ?thesis by (simp add: step_def step_task_def)
  qed
  from ch cap rel show ?thesis by simp
qed

text \<open>
  Four drivers: once all four goroutines are started and three of them have sent, three
  tasks hold the limiter and the fourth cannot send; the task of driver 0, whose clone
  fails, releases its slot all the same.
\<close>

theorem limiter_bound_witness:
  "exec four_drivers three_holding_schedule (init four_drivers) = Some three_holding_state \<and>
   length (filter holding (tasks three_holding_state)) = 3 \<and>
   length (concurent three_holding_state) = 3 \<and>
   step four_drivers (StepTask 3 env_clone_ok) three_holding_state = None \<and>
   (0 < length four_drivers \<and> tasks three_holding_state ! 0 = T_Call) \<and>
   maybeCloneOrPull env_clone_fails (four_drivers ! 0) = Some (GoError ''exit status 128'') \<and>
   exec four_drivers [StepTask 0 env_clone_fails, StepTask 0 env_clone_fails] three_holding_state =
     Some (three_holding_state\<lparr>concurent := tl (concurent three_holding_state),
            tasks := (tasks three_holding_state)
              [0 := T_WgDone (maybeCloneOrPull env_clone_fails (four_drivers ! 0))]\<rparr>)"
proof -
  have h: "exec four_drivers three_holding_schedule (init four_drivers) = Some three_holding_state"
    by code_simp
  have c: "length (filter holding (tasks three_holding_state)) = 3"
    "length (concurent three_holding_state) = 3"
    "step four_drivers (StepTask 3 env_clone_ok) three_holding_state = None"
    "0 < length four_drivers \<and> tasks three_holding_state ! 0 = T_Call"
    "maybeCloneOrPull env_clone_fails (four_drivers ! 0) = Some (GoError ''exit status 128'')"
    by code_simp+
  from h c limiter_bound [OF h, of 0 env_clone_fails env_clone_fails]
  show ?thesis by blast
qed

lemma exec_append:
  "exec ds (xs @ ys) s = (case exec ds xs s of None \<Rightarrow> None | Some s' \<Rightarrow> exec ds ys s')"
  by (induction xs arbitrary: s) (simp_all split: option.splits)

lemma seq_round:
  assumes "i = length pre" and "length ds = length pre + Suc (length post)"
  shows "exec ds [StepMain, StepMain, StepTask i w, StepTask i w, StepTask i w, StepTask i w]
           \<lparr>mpc = M_Add i, wg = 0, concurent = [], tasks = pre @ T_NotStarted # post\<rparr> =
         Some \<lparr>mpc = loop_head ds (Suc i), wg = 0, concurent = [],
               tasks = pre @ T_Exit (maybeCloneOrPull w (ds ! i)) # post\<rparr>"
  using assms by (simp add: step_def step_main_def step_task_def)

lemma seq_from_exec:
  "length ds = length pre + length ws \<Longrightarrow>
     exec ds (seq_from (length pre) ws)
       \<lparr>mpc = loop_head ds (length pre), wg = 0, concurent = [],
        tasks = pre @ replicate (length ws) T_NotStarted\<rparr> =
     Some \<lparr>mpc = M_Return, wg = 0, concurent = [],
           tasks = pre @ map T_Exit (outcomes ws (drop (length pre) ds))\<rparr>"
proof (induction ws arbitrary: pre)
  case Nil
  then show ?case by (simp add: loop_head_def step_def step_main_def outcomes_def)
next
  case (Cons w ws)
  let ?i = "length pre"
  let ?r = "maybeCloneOrPull w (ds ! ?i)"
  from Cons.prems have lt: "?i < length ds" by simp
  then have head: "loop_head ds ?i = M_Add ?i" by (simp add: loop_head_def)
  have round: "exec ds [StepMain, StepMain, StepTask ?i w, StepTask ?i w, StepTask ?i w, StepTask ?i w]
           \<lparr>mpc = M_Add ?i, wg = 0, concurent = [], tasks = pre @ T_NotStarted # replicate (length ws) T_NotStarted\<rparr> =
         Some \<lparr>mpc = loop_head ds (Suc ?i), wg = 0, concurent = [],
               tasks = pre @ T_Exit ?r # replicate (length ws) T_NotStarted\<rparr>"
    using Cons.prems by (intro seq_round) simp_all
  have "length ds = length (pre @ [T_Exit ?r]) + length ws" using Cons.prems by simp
  from Cons.IH [OF this]
  have rest: "exec ds (seq_from (Suc ?i) ws)
       \<lparr>mpc = loop_head ds (Suc ?i), wg = 0, concurent = [],
        tasks = pre @ T_Exit ?r # replicate (length ws) T_NotStarted\<rparr> =
     Some \<lparr>mpc = M_Return, wg = 0, concurent = [],
           tasks = pre @ T_Exit ?r # map T_Exit (outcomes ws (drop (Suc ?i) ds))\<rparr>"
    by simp
  have dr: "drop ?i ds = ds ! ?i # drop (Suc ?i) ds"
    using lt by (simp add: Cons_nth_drop_Suc)
  have "exec ds (seq_from ?i (w # ws))
       \<lparr>mpc = loop_head ds ?i, wg = 0, concurent = [],
        tasks = pre @ replicate (length (w # ws)) T_NotStarted\<rparr> =
     exec ds (seq_from (Suc ?i) ws)
       \<lparr>mpc = loop_head ds (Suc ?i), wg = 0, concurent = [],
        tasks = pre @ T_Exit ?r # replicate (length ws) T_NotStarted\<rparr>"
    unfolding seq_from.simps exec_append head using round by simp
  with rest dr show ?case by (simp add: outcomes_def)
qed

lemma seq_schedule_complete:
  assumes "length ws = length ds"
  shows "exec ds (seq_schedule ws) (init ds) =
           Some \<lparr>mpc = M_Return, wg = 0, concurent = [], tasks = map T_Exit (outcomes ws ds)\<rparr>"
  using seq_from_exec [of ds "[]" ws] assms by (simp add: seq_schedule_def init_def)

section \<open>The goroutines: where an outcome comes from, and what the schedule does not depend on\<close>

lemma exec_snoc:
  "exec ds (evs @ [ev]) s = (case exec ds evs s of None \<Rightarrow> None | Some s' \<Rightarrow> step ds ev s')"
  by (simp add: exec_append split: option.splits)

lemma step_length: "step ds ev s = Some s' \<Longrightarrow> length (tasks s') = length (tasks s)"
  by (cases ev)
     (auto simp: step_def step_main_def step_task_def
           split: main_pc.splits task_pc.splits if_splits list.splits)

lemma returned_update_send:
  "i < length ts \<Longrightarrow> returned (ts[k := T_Send] ! i) = Some r \<Longrightarrow> returned (ts ! i) = Some r"
  by (cases "k = i") auto

lemma step_returned:
  assumes "step ds ev s = Some s'" and "i < length (tasks s)" and "returned (tasks s' ! i) = Some r"
  shows "returned (tasks s ! i) = Some r \<or> (\<exists>w. ev = StepTask i w \<and> r = maybeCloneOrPull w (ds ! i))"
proof (cases ev)
  case StepMain
  with assms show ?thesis
    by (auto simp: step_def step_main_def split: main_pc.splits if_splits
             dest: returned_update_send)
next
  case (StepTask j w)
  show ?thesis
  proof (cases "j = i")
    case True
    with assms StepTask show ?thesis
      by (auto simp: step_def step_task_def split: task_pc.splits if_splits list.splits)
  next
    case False
    with assms StepTask show ?thesis
      by (auto simp: step_def step_task_def split: task_pc.splits if_splits list.splits)
  qed
qed

lemma outcome_origin:
  "exec ds evs (init ds) = Some s \<Longrightarrow> i < length ds \<Longrightarrow> returned (tasks s ! i) = Some r \<Longrightarrow>
     \<exists>w. StepTask i w \<in> set evs \<and> r = maybeCloneOrPull w (ds ! i)"
proof (induction evs arbitrary: s r rule: rev_induct)
  case Nil
  then show ?case by (auto simp: init_def)
next
  case (snoc ev evs)
  from snoc.prems(1) obtain s0 where e0: "exec ds evs (init ds) = Some s0"
    and st: "step ds ev s0 = Some s"
    by (auto simp: exec_snoc split: option.splits)
  from reachable_inv [OF e0] have "length (tasks s0) = length ds" by (simp add: sync_inv_def)
  with snoc.prems(2) have "i < length (tasks s0)" by simp
  from step_returned [OF st this snoc.prems(3)]
  show ?case
  proof
    assume "returned (tasks s0 ! i) = Some r"
    from snoc.IH [OF e0 snoc.prems(2) this] show ?thesis by auto
  next
    assume "\<exists>w. ev = StepTask i w \<and> r = maybeCloneOrPull w (ds ! i)"
    then show ?thesis by auto
  qed
qed

lemma erase_fields [simp]:
  "mpc (erase s) = mpc s" "wg (erase s) = wg s" "concurent (erase s) = concurent s"
  "tasks (erase s) = map erase_pc (tasks s)"
  by (simp_all add: erase_def)

lemma erase_eqD:
  assumes "erase s = erase s'"
  shows "mpc s = mpc s'" "wg s = wg s'" "concurent s = concurent s'"
    "map erase_pc (tasks s) = map erase_pc (tasks s')" "sync_state.more s = sync_state.more s'"
proof -
  from assms have "mpc (erase s) = mpc (erase s')" "wg (erase s) = wg (erase s')"
    "concurent (erase s) = concurent (erase s')" "tasks (erase s) = tasks (erase s')"
    "sync_state.more (erase s) = sync_state.more (erase s')"
    by simp_all
  then show "mpc s = mpc s'" "wg s = wg s'" "concurent s = concurent s'"
    "map erase_pc (tasks s) = map erase_pc (tasks s')" "sync_state.more s = sync_state.more s'"
    by (simp_all add: erase_def)
qed

lemma erase_update:
  "map erase_pc ts = map erase_pc ts' \<Longrightarrow> erase_pc y = erase_pc y' \<Longrightarrow>
     erase (s\<lparr>tasks := ts[i := y]\<rparr>) = erase (s\<lparr>tasks := ts'[i := y']\<rparr>)"
  by (simp add: erase_def map_update)

lemma erase_split:
  assumes "erase s = erase s'"
  obtains ts' where "s' = s\<lparr>tasks := ts'\<rparr>" and "map erase_pc (tasks s) = map erase_pc ts'"
proof -
  note e = erase_eqD [OF assms]
  have "s' = s\<lparr>tasks := tasks s'\<rparr>"
    using e(1,2,3,5) by (intro sync_state.equality) simp_all
  with e(4) that show thesis by blast
qed

lemma step_main_erase:
  assumes "erase s = erase s'"
  shows "map_option erase (step_main ds s) = map_option erase (step_main ds s')"
proof -
  from assms obtain ts' where s': "s' = s\<lparr>tasks := ts'\<rparr>"
    and ts: "map erase_pc (tasks s) = map erase_pc ts'"
    by (rule erase_split)
  show ?thesis
    unfolding s' using ts
    by (cases "mpc s") (simp_all add: step_main_def erase_def map_update)
qed

lemma erase_pc_eq_cases:
  assumes "erase_pc p = erase_pc q"
  shows "(p = T_NotStarted \<and> q = T_NotStarted) \<or> (p = T_Send \<and> q = T_Send) \<or>
         (p = T_Call \<and> q = T_Call) \<or> (\<exists>r r'. p = T_Recv r \<and> q = T_Recv r') \<or>
         (\<exists>r r'. p = T_WgDone r \<and> q = T_WgDone r') \<or> (\<exists>r r'. p = T_Exit r \<and> q = T_Exit r') \<or>
         (p = T_Crash \<and> q = T_Crash)"
  using assms by (cases p; cases q) simp_all

lemma step_task_erase:
  assumes "erase s = erase s'"
  shows "map_option erase (step_task ds i w s) = map_option erase (step_task ds i w' s')"
proof -
  from assms obtain ts' where s': "s' = s\<lparr>tasks := ts'\<rparr>"
    and ts: "map erase_pc (tasks s) = map erase_pc ts'"
    by (rule erase_split)
  from ts have len: "length (tasks s) = length ts'" by (rule map_eq_imp_length_eq)
  show ?thesis
  proof (cases "length (tasks s) \<le> i \<or> length ds \<le> i")
    case True
    with len show ?thesis unfolding s' by (auto simp: step_task_def)
  next
    case False
    with len have i: "i < length (tasks s)" "i < length ts'" "i < length ds" by simp_all
    from ts i have "erase_pc (tasks s ! i) = erase_pc (ts' ! i)"
      by (metis nth_map)
    from erase_pc_eq_cases [OF this] show ?thesis
    proof (elim disjE conjE exE)
      assume "tasks s ! i = T_NotStarted" "ts' ! i = T_NotStarted"
      with i show ?thesis unfolding s' by (simp add: step_task_def)
    next
      assume "tasks s ! i = T_Send" "ts' ! i = T_Send"
      with i ts show ?thesis unfolding s' by (simp add: step_task_def erase_def map_update)
    next
      assume "tasks s ! i = T_Call" "ts' ! i = T_Call"
      with i ts show ?thesis unfolding s' by (simp add: step_task_def erase_def map_update)
    next
      fix r r' assume "tasks s ! i = T_Recv r" "ts' ! i = T_Recv r'"
      with i ts show ?thesis unfolding s'
        by (cases "concurent s") (simp_all add: step_task_def erase_def map_update)
    next
      fix r r' assume "tasks s ! i = T_WgDone r" "ts' ! i = T_WgDone r'"
      with i ts show ?thesis unfolding s' by (simp add: step_task_def erase_def map_update)
    next
      fix r r' assume "tasks s ! i = T_Exit r" "ts' ! i = T_Exit r'"
      with i show ?thesis unfolding s' by (simp add: step_task_def)
    next
      assume "tasks s ! i = T_Crash" "ts' ! i = T_Crash"
      with i show ?thesis unfolding s' by (simp add: step_task_def)
    qed
  qed
qed

lemma step_erase:
  assumes "thread ev = thread ev'" and "erase s = erase s'"
  shows "map_option erase (step ds ev s) = map_option erase (step ds ev' s')"
proof (cases ev)
  case StepMain
  with assms(1) have "ev' = StepMain" by (cases ev') simp_all
  with StepMain step_main_erase [OF assms(2)] show ?thesis by (simp add: step_def)
next
  case (StepTask i w)
  with assms(1) obtain w' where "ev' = StepTask i w'" by (cases ev') simp_all
  with StepTask step_task_erase [OF assms(2), of ds i w w'] show ?thesis by (simp add: step_def)
qed

lemma exec_erase:
  "map thread evs = map thread evs' \<Longrightarrow> erase s = erase s' \<Longrightarrow>
     map_option erase (exec ds evs s) = map_option erase (exec ds evs' s')"
proof (induction evs arbitrary: evs' s s')
  case Nil
  then show ?case by simp
next
  case (Cons ev evs)
  then obtain ev' rest where evs': "evs' = ev' # rest" and th: "thread ev = thread ev'"
    and tl: "map thread evs = map thread rest"
    by (cases evs') auto
  from step_erase [OF th Cons.prems(2), of ds]
  have st: "map_option erase (step ds ev s) = map_option erase (step ds ev' s')" .
  show ?case
  proof (cases "step ds ev s")
    case None
    with st have "step ds ev' s' = None" by simp
    with None evs' show ?thesis by simp
  next
    case (Some t)
    with st obtain t' where t': "step ds ev' s' = Some t'" and et: "erase t = erase t'"
      by (cases "step ds ev' s'") auto
    from Cons.IH [OF tl et] Some t' evs' show ?thesis by simp
  qed
qed

section \<open>The goroutines: no deadlock, and what the caller can see\<close>

lemma filter_witness: "0 < length (filter P xs) \<Longrightarrow> \<exists>i<length xs. P (xs ! i)"
  by (metis filter_False in_set_conv_nth length_greater_0_conv)

lemma holding_can_step:
  assumes inv: "sync_inv ds s" and i: "i < length ds" and h: "holding (tasks s ! i)"
  shows "\<exists>s'. step ds (StepTask i w) s = Some s'"
proof -
  from inv have len: "length (tasks s) = length ds"
    and ch: "length (concurent s) = length (filter holding (tasks s))"
    by (simp_all add: sync_inv_def)
  have "0 < length (filter holding (tasks s))"
    using i len h by (intro filter_pos [of i]) simp_all
  with ch obtain v rest where c: "concurent s = v # rest" by (cases "concurent s") simp_all
  from h show ?thesis
  proof (cases "tasks s ! i")
    case T_Call
    with i len show ?thesis by (simp add: step_def step_task_def)
  next
    case (T_Recv r)
    with i len c show ?thesis by (simp add: step_def step_task_def)
  qed simp_all
qed

lemma no_deadlock:
  assumes reach: "exec ds evs (init ds) = Some s" and nr: "mpc s \<noteq> M_Return"
  shows "\<exists>ev s'. step ds ev s = Some s'"
proof -
  from reach have inv: "sync_inv ds s" by (rule reachable_inv)
  then have len: "length (tasks s) = length ds"
    and ch: "length (concurent s) = length (filter holding (tasks s))"
    and wgs: "wg s = int (length (filter active (tasks s))) + pending_add (mpc s)"
    by (simp_all add: sync_inv_def)
  show ?thesis
  proof (cases "mpc s")
    case (M_Add i)
    then have "\<exists>s'. step ds StepMain s = Some s'" by (simp add: step_def step_main_def)
    then show ?thesis by (elim exE) (rule exI, rule exI, assumption)
  next
    case (M_Go i)
    then have "\<exists>s'. step ds StepMain s = Some s'" by (simp add: step_def step_main_def)
    then show ?thesis by (elim exE) (rule exI, rule exI, assumption)
  next
    case M_Return
    with nr show ?thesis by simp
  next
    case M_Wait
    show ?thesis
    proof (cases "wg s = 0")
      case True
      with M_Wait have "\<exists>s'. step ds StepMain s = Some s'" by (simp add: step_def step_main_def)
      then show ?thesis by (elim exE) (rule exI, rule exI, assumption)
    next
      case False
      with wgs M_Wait have "0 < length (filter active (tasks s))" by simp
      from filter_witness [OF this]
      obtain j where j: "j < length (tasks s)" and a: "active (tasks s ! j)"
        by (elim exE conjE)
      from j len have jd: "j < length ds" by simp
      show ?thesis
      proof (cases "holding (tasks s ! j)")
        case True
        from holding_can_step [OF inv jd True, of undefined] show ?thesis by (elim exE) (rule exI, rule exI, assumption)
      next
        case nh: False
        show ?thesis
        proof (cases "tasks s ! j")
          case T_Send
          show ?thesis
          proof (cases "length (concurent s) < 3")
            case True
            with T_Send j jd have "\<exists>s'. step ds (StepTask j undefined) s = Some s'"
              by (simp add: step_def step_task_def)
            then show ?thesis by (elim exE) (rule exI, rule exI, assumption)
          next
            case False
            with ch have "0 < length (filter holding (tasks s))" by arith
            from filter_witness [OF this]
            obtain k where k: "k < length (tasks s)" and hk: "holding (tasks s ! k)"
              by (elim exE conjE)
            from k len have "k < length ds" by simp
            from holding_can_step [OF inv this hk, of undefined] show ?thesis by (elim exE) (rule exI, rule exI, assumption)
          qed
        next
          case (T_WgDone r)
          with j jd have "\<exists>s'. step ds (StepTask j undefined) s = Some s'"
            by (simp add: step_def step_task_def)
          then show ?thesis by (elim exE) (rule exI, rule exI, assumption)
        next
          case T_NotStarted
          with a show ?thesis by simp
        next
          case T_Call
          with nh show ?thesis by simp
        next
          case (T_Recv r)
          with nh show ?thesis by simp
        next
          case (T_Exit r)
          with a show ?thesis by simp
        next
          case T_Crash
          with a show ?thesis by simp
        qed
      qed
    qed
  qed
qed

lemma sync_result_erase:
  assumes "map_option erase (exec ds evs' (init ds)) = map_option erase (exec ds evs (init ds))"
  shows "maybeCloneOrPullAll w ds evs' = maybeCloneOrPullAll w ds evs"
proof (cases "exec ds evs (init ds)")
  case None
  with assms have "exec ds evs' (init ds) = None" by simp
  with None show ?thesis by (simp add: maybeCloneOrPullAll_def split: option.splits)
next
  case (Some s)
  with assms obtain s' where s': "exec ds evs' (init ds) = Some s'" and e: "erase s' = erase s"
    by (cases "exec ds evs' (init ds)") auto
  from erase_eqD(1) [OF e] have "mpc s' = mpc s" .
  with Some s' show ?thesis by (simp add: maybeCloneOrPullAll_def split: option.splits)
qed

lemma exit_outcome:
  assumes reach: "exec ds evs (init ds) = Some s" and ret: "mpc s = M_Return" and i: "i < length ds"
  shows "\<exists>w. StepTask i w \<in> set evs \<and> tasks s ! i = T_Exit (maybeCloneOrPull w (ds ! i))"
proof -
  from reachable_inv [OF reach] ret i have "is_exit (tasks s ! i)" by (simp add: sync_inv_def)
  then obtain r where r: "tasks s ! i = T_Exit r" by (cases "tasks s ! i") simp_all
  then have "returned (tasks s ! i) = Some r" by simp
  from outcome_origin [OF reach i this] r show ?thesis by auto
qed

text \<open>
  Claim C8. When the clone root is created, \<open>maybeCloneOrPullAll\<close> returns a nil error under
  every schedule that lets it return, whatever the clone and pull operations of the
  drivers returned; and it does return: for any environments of the tasks, failing or
  not, the sequential schedule is a complete execution, at whose end every goroutine
  holds the value of its own \<open>maybeCloneOrPull\<close> call, which nobody reads.
\<close>

theorem sync_error_discarded:
  assumes "os_MkdirAll w repoRootPath = None"
  shows "(maybeCloneOrPullAll w drivers evs = Some r \<longrightarrow> r = None) \<and>
         (length ws = length drivers \<longrightarrow>
            exec drivers (seq_schedule ws) (init drivers) =
              Some \<lparr>mpc = M_Return, wg = 0, concurent = [],
                    tasks = map T_Exit (outcomes ws drivers)\<rparr> \<and>
            maybeCloneOrPullAll w drivers (seq_schedule ws) = Some None)"
proof (intro conjI impI)
  assume "maybeCloneOrPullAll w drivers evs = Some r"
  with assms show "r = None"
    by (auto simp: maybeCloneOrPullAll_def split: option.splits if_splits)
next
  assume len: "length ws = length drivers"
  from seq_schedule_complete [OF len]
  show "exec drivers (seq_schedule ws) (init drivers) =
              Some \<lparr>mpc = M_Return, wg = 0, concurent = [],
                    tasks = map T_Exit (outcomes ws drivers)\<rparr>" .
  then show "maybeCloneOrPullAll w drivers (seq_schedule ws) = Some None"
    using assms by (simp add: maybeCloneOrPullAll_def)
qed

text \<open>C8 at four drivers whose clones all fail: four errors in the goroutines, nil returned.\<close>

theorem sync_error_discarded_witness:
  "os_MkdirAll env_clone_ok repoRootPath = None \<and>
   length all_fail_envs = length four_drivers \<and>
   outcomes all_fail_envs four_drivers =
     [Some clone_error, Some clone_error, Some clone_error, Some clone_error] \<and>
   exec four_drivers (seq_schedule all_fail_envs) (init four_drivers) =
     Some \<lparr>mpc = M_Return, wg = 0, concurent = [],
           tasks = map T_Exit (outcomes all_fail_envs four_drivers)\<rparr> \<and>
   maybeCloneOrPullAll env_clone_ok four_drivers (seq_schedule all_fail_envs) = Some None"
proof -
  have h: "os_MkdirAll env_clone_ok repoRootPath = None"
    by (simp add: env_clone_ok_def)
  have l: "length all_fail_envs = length four_drivers"
    by (simp add: all_fail_envs_def four_drivers_def)
  have o: "outcomes all_fail_envs four_drivers =
     [Some clone_error, Some clone_error, Some clone_error, Some clone_error]"
    by code_simp
  from h l o sync_error_discarded [OF h, of four_drivers "seq_schedule all_fail_envs" None all_fail_envs]
  show ?thesis by blast
qed

text \<open>
  Claim C1, as the code has it. The synchronizer returns no list of outcomes. When it
  returns, every driver's goroutine, in the order of the input list, has finished with
  the value of its own clone or pull, error or nil; that value stays in the goroutine.
  What the function returns, and which goroutine can move when, do not depend on these
  values: two schedules that move the same goroutines in the same order reach the same
  state up to the values and give the same return value, so a failure of one driver
  neither aborts nor blocks another; and while the function has not returned, some
  goroutine can always take a step.
\<close>

theorem outcomes_stay_in_goroutines:
  "(exec drivers evs (init drivers) = Some s \<and> mpc s = M_Return \<and> i < length drivers \<longrightarrow>
      (\<exists>w. StepTask i w \<in> set evs \<and> tasks s ! i = T_Exit (maybeCloneOrPull w (drivers ! i)))) \<and>
   (map thread evs' = map thread evs \<longrightarrow>
      map_option erase (exec drivers evs' (init drivers)) =
        map_option erase (exec drivers evs (init drivers)) \<and>
      maybeCloneOrPullAll w0 drivers evs' = maybeCloneOrPullAll w0 drivers evs) \<and>
   (exec drivers evs (init drivers) = Some s \<and> mpc s \<noteq> M_Return \<longrightarrow>
      (\<exists>ev s'. step drivers ev s = Some s'))"
proof (intro conjI impI)
  assume "exec drivers evs (init drivers) = Some s \<and> mpc s = M_Return \<and> i < length drivers"
  then show "\<exists>w. StepTask i w \<in> set evs \<and> tasks s ! i = T_Exit (maybeCloneOrPull w (drivers ! i))"
    using exit_outcome by blast
next
  assume th: "map thread evs' = map thread evs"
  from exec_erase [OF th refl]
  show e: "map_option erase (exec drivers evs' (init drivers)) =
        map_option erase (exec drivers evs (init drivers))" .
  from sync_result_erase [OF e]
  show "maybeCloneOrPullAll w0 drivers evs' = maybeCloneOrPullAll w0 drivers evs" .
next
  assume "exec drivers evs (init drivers) = Some s \<and> mpc s \<noteq> M_Return"
  then show "\<exists>ev s'. step drivers ev s = Some s'"
    using no_deadlock by blast
qed

text \<open>
  The hypotheses of the amended C1 at four drivers: the sequential schedule in which the
  clone of driver 0 fails against the one in which none fails, and the state in which
  three tasks hold the limiter.
\<close>

theorem outcomes_stay_in_goroutines_witness:
  "(exec four_drivers (seq_schedule one_fails_envs) (init four_drivers) = Some final_one_fails \<and>
    mpc final_one_fails = M_Return \<and> 0 < length four_drivers) \<and>
   tasks final_one_fails ! 0 = T_Exit (Some clone_error) \<and>
   (\<exists>w. StepTask 0 w \<in> set (seq_schedule one_fails_envs) \<and>
        tasks final_one_fails ! 0 = T_Exit (maybeCloneOrPull w (four_drivers ! 0))) \<and>
   map thread (seq_schedule none_fails_envs) = map thread (seq_schedule one_fails_envs) \<and>
   map_option erase (exec four_drivers (seq_schedule none_fails_envs) (init four_drivers)) =
     map_option erase (exec four_drivers (seq_schedule one_fails_envs) (init four_drivers)) \<and>
   maybeCloneOrPullAll env_clone_ok four_drivers (seq_schedule none_fails_envs) =
     maybeCloneOrPullAll env_clone_ok four_drivers (seq_schedule one_fails_envs) \<and>
   (exec four_drivers three_holding_schedule (init four_drivers) = Some three_holding_state \<and>
    mpc three_holding_state \<noteq> M_Return) \<and>
   (\<exists>ev s'. step four_drivers ev three_holding_state = Some s')"
proof -
  have h1: "exec four_drivers (seq_schedule one_fails_envs) (init four_drivers) = Some final_one_fails \<and>
    mpc final_one_fails = M_Return \<and> 0 < length four_drivers"
    by code_simp
  have c1: "tasks final_one_fails ! 0 = T_Exit (Some clone_error)"
    by code_simp
  have h2: "map thread (seq_schedule none_fails_envs) = map thread (seq_schedule one_fails_envs)"
    by code_simp
  have h3: "exec four_drivers three_holding_schedule (init four_drivers) = Some three_holding_state \<and>
    mpc three_holding_state \<noteq> M_Return"
    by code_simp
  from h1 c1 h2 h3
    outcomes_stay_in_goroutines [of four_drivers "seq_schedule one_fails_envs" final_one_fails 0
      "seq_schedule none_fails_envs" env_clone_ok]
    outcomes_stay_in_goroutines [of four_drivers three_holding_schedule three_holding_state 0
      three_holding_schedule env_clone_ok]
  show ?thesis by blast
qed

text \<open>
  Claim C1 as stated fails: the clone of driver 0 fails in one run and succeeds in the
  other, and the synchronizer returns the same nil in both; no outcome of driver 0 is
  recorded in what it returns.
\<close>

theorem sync_outcome_list_counterexample:
  "maybeCloneOrPull env_clone_fails (four_drivers ! 0) = Some clone_error \<and>
   maybeCloneOrPull env_clone_ok (four_drivers ! 0) = None \<and>
   maybeCloneOrPullAll env_clone_ok four_drivers (seq_schedule one_fails_envs) = Some None \<and>
   maybeCloneOrPullAll env_clone_ok four_drivers (seq_schedule none_fails_envs) = Some None"
  by code_simp

section \<open>The whole run: the store after the analyses\<close>

lemma alloc_maps_cells_empty:
  "(\<And>a. cells st a = Map.empty) \<Longrightarrow> cells (alloc_maps n st) a = Map.empty"
  by (induction n arbitrary: st) (simp_all add: make_map_def)

lemma length_new_drivers: "length (new_drivers a langs) = length langs"
  by (induction langs arbitrary: a) simp_all

lemma new_drivers_addr:
  "d \<in> set (new_drivers a langs) \<Longrightarrow>
     \<exists>k. fixturesUast d = Some (a + 2 * k) \<and> codeUast d = Some (Suc (a + 2 * k))"
proof (induction langs arbitrary: a)
  case Nil
  then show ?case by simp
next
  case (Cons l langs)
  from Cons.prems consider "fixturesUast d = Some a \<and> codeUast d = Some (Suc a)"
    | "d \<in> set (new_drivers (Suc (Suc a)) langs)"
    by auto
  then show ?case
  proof cases
    case 1
    then have "fixturesUast d = Some (a + 2 * 0) \<and> codeUast d = Some (Suc (a + 2 * 0))" by simp
    then show ?thesis by (rule exI)
  next
    case 2
    from Cons.IH [OF this] obtain k where
      "fixturesUast d = Some (Suc (Suc a) + 2 * k) \<and> codeUast d = Some (Suc (Suc (Suc a) + 2 * k))"
      by (elim exE)
    then have "fixturesUast d = Some (a + 2 * Suc k) \<and> codeUast d = Some (Suc (a + 2 * Suc k))"
      by simp
    then show ?thesis by (rule exI)
  qed
qed

lemma new_drivers_code_some: "list_all (\<lambda>d. codeUast d \<noteq> None) (new_drivers a langs)"
  by (induction langs arbitrary: a) simp_all

lemma new_drivers_code_distinct: "distinct (map codeUast (new_drivers a langs))"
proof (induction langs arbitrary: a)
  case Nil
  then show ?case by simp
next
  case (Cons l langs)
  have "Some (Suc a) \<notin> codeUast ` set (new_drivers (Suc (Suc a)) langs)"
  proof
    assume "Some (Suc a) \<in> codeUast ` set (new_drivers (Suc (Suc a)) langs)"
    then obtain d where d: "d \<in> set (new_drivers (Suc (Suc a)) langs)" and c: "codeUast d = Some (Suc a)"
      by (auto simp: image_iff)
    from new_drivers_addr [OF d] c show False by auto
  qed
  with Cons.IH show ?case by simp
qed

lemma new_drivers_fixtures_not_code:
  assumes "d \<in> set (new_drivers a langs)"
  shows "fixturesUast d \<notin> codeUast ` set (new_drivers a langs)"
proof
  assume "fixturesUast d \<in> codeUast ` set (new_drivers a langs)"
  then obtain d' where d': "d' \<in> set (new_drivers a langs)" and e: "codeUast d' = fixturesUast d"
    by (auto simp: image_iff)
  from new_drivers_addr [OF assms] obtain k where k: "fixturesUast d = Some (a + 2 * k)" by (elim exE conjE)
  from new_drivers_addr [OF d'] obtain k' where k': "codeUast d' = Some (Suc (a + 2 * k'))" by (elim exE conjE)
  from e k k' have "Suc (a + 2 * k') = a + 2 * k" by simp
  then show False by presburger
qed

lemma analyze_loop_cells:
  "list_all (\<lambda>d. codeUast d \<noteq> None) ds \<Longrightarrow> distinct (map codeUast ds) \<Longrightarrow>
     \<exists>st'. analyze_loop ds ts st = Ok st' \<and> free st' = free st \<and>
       (\<forall>a. cells st' a =
          (if Some a \<in> codeUast ` set ds
           then (cells st a)(''Identifier'' \<mapsto> map_index (cells st) (Some a) ''Identifier'' + 1)
           else cells st a))"
proof (induction ds arbitrary: st)
  case Nil
  then show ?case by simp
next
  case (Cons d ds)
  from Cons.prems obtain ad where ad: "codeUast d = Some ad" by auto
  from Cons.prems ad have fresh: "Some ad \<notin> codeUast ` set ds" by (auto simp: image_iff)
  define st1 where "st1 = st\<lparr>cells := (cells st)
      (ad := (cells st ad)(''Identifier'' \<mapsto> map_index (cells st) (Some ad) ''Identifier'' + 1))\<rparr>"
  have step: "analyze_loop (d # ds) ts st = analyze_loop ds ts st1"
    by (simp add: analyzeFixtures_def analyzeCode_def ad st1_def)
  from Cons.prems have "list_all (\<lambda>d. codeUast d \<noteq> None) ds" "distinct (map codeUast ds)" by simp_all
  from Cons.IH [OF this, of st1] obtain st' where ok: "analyze_loop ds ts st1 = Ok st'"
    and fr: "free st' = free st1"
    and cl: "\<forall>a. cells st' a =
          (if Some a \<in> codeUast ` set ds
           then (cells st1 a)(''Identifier'' \<mapsto> map_index (cells st1) (Some a) ''Identifier'' + 1)
           else cells st1 a)"
    by (elim exE conjE)
  have other: "cells st1 a = cells st a" if "a \<noteq> ad" for a
    using that by (simp add: st1_def)
  have idx: "map_index (cells st1) (Some a) k = map_index (cells st) (Some a) k" if "a \<noteq> ad" for a k
    using that by (simp add: map_index_def deref_def st1_def)
  have "cells st' a =
          (if Some a \<in> codeUast ` set (d # ds)
           then (cells st a)(''Identifier'' \<mapsto> map_index (cells st) (Some a) ''Identifier'' + 1)
           else cells st a)" for a
  proof (cases "a = ad")
    case True
    with fresh cl ad show ?thesis by (simp add: st1_def)
  next
    case False
    with cl ad other [OF False] idx [OF False] show ?thesis by auto
  qed
  with step ok fr show ?case by (simp add: st1_def)
qed

lemma empty_store_cells: "cells empty_store a = Map.empty"
  by (simp add: empty_store_def)

lemma final_store_ok:
  "analyze_loop (new_drivers 0 langs) findAllUastTypes (alloc_maps (2 * length langs) empty_store) =
     Ok (final_store langs)"
proof -
  from analyze_loop_cells [OF new_drivers_code_some new_drivers_code_distinct]
  obtain st' where "analyze_loop (new_drivers 0 langs) findAllUastTypes
      (alloc_maps (2 * length langs) empty_store) = Ok st'"
    by blast
  then show ?thesis by (simp add: final_store_def)
qed

lemma final_store_cells:
  "cells (final_store langs) a =
     (if Some a \<in> codeUast ` set (new_drivers 0 langs) then [''Identifier'' \<mapsto> 1] else Map.empty)"
proof -
  let ?st = "alloc_maps (2 * length langs) empty_store"
  from analyze_loop_cells [OF new_drivers_code_some new_drivers_code_distinct, of 0 langs findAllUastTypes ?st]
  obtain st' where ok: "analyze_loop (new_drivers 0 langs) findAllUastTypes ?st = Ok st'"
    and cl: "\<forall>a. cells st' a =
          (if Some a \<in> codeUast ` set (new_drivers 0 langs)
           then (cells ?st a)(''Identifier'' \<mapsto> map_index (cells ?st) (Some a) ''Identifier'' + 1)
           else cells ?st a)"
    by (elim exE conjE)
  from ok have st': "st' = final_store langs" by (simp add: final_store_ok)
  have e: "cells ?st b = Map.empty" for b
    by (rule alloc_maps_cells_empty) (rule empty_store_cells)
  have z: "map_index (cells ?st) (Some b) k = 0" for b k
    by (simp add: map_index_def deref_def e)
  from cl [rule_format, of a] show ?thesis
    unfolding st' by (simp add: e z)
qed

lemma listDrivers_ok:
  "list_all (\<lambda>l. CHR ''/'' \<in> set (RepositoryURL l)) langs \<Longrightarrow>
     listDrivers (Inr langs) empty_store =
       Ok (new_drivers 0 langs, alloc_maps (2 * length langs) empty_store)"
  by (simp add: listDrivers_def listDrivers_loop_ok empty_store_def)

lemma not_all_slash:
  "\<not> list_all (\<lambda>l. CHR ''/'' \<in> set (RepositoryURL l)) langs \<Longrightarrow>
     list_ex (\<lambda>l. CHR ''/'' \<notin> set (RepositoryURL l)) langs"
  by (induction langs) auto

lemma run_ok:
  assumes "list_all (\<lambda>l. CHR ''/'' \<in> set (RepositoryURL l)) langs"
    and "maybeCloneOrPullAll w (new_drivers 0 langs) evs = Some None"
  shows "run (Inr langs) w evs =
           Some (Ok (formatMarkdownTable (cells (final_store langs)) (new_drivers 0 langs)
                       findAllUastTypes [], final_store langs))"
  using assms by (simp add: run_def listDrivers_ok final_store_ok)

lemma run_report_cases:
  assumes "run discovered w evs = Some (Ok (out, st))"
  obtains langs where "discovered = Inr langs"
    and "list_all (\<lambda>l. CHR ''/'' \<in> set (RepositoryURL l)) langs"
    and "maybeCloneOrPullAll w (new_drivers 0 langs) evs = Some None"
    and "out = formatMarkdownTable (cells (final_store langs)) (new_drivers 0 langs) findAllUastTypes []"
    and "st = final_store langs"
proof (cases discovered)
  case (Inl err)
  with assms show ?thesis by (simp add: run_def listDrivers_def)
next
  case (Inr langs)
  show ?thesis
  proof (cases "list_all (\<lambda>l. CHR ''/'' \<in> set (RepositoryURL l)) langs")
    case False
    from listDrivers_loop_panic [OF not_all_slash [OF False], of "[]" empty_store] assms Inr
    show ?thesis by (simp add: run_def listDrivers_def)
  next
    case True
    have sync: "maybeCloneOrPullAll w (new_drivers 0 langs) evs = Some None"
    proof (cases "maybeCloneOrPullAll w (new_drivers 0 langs) evs")
      case None
      with assms Inr True show ?thesis by (simp add: run_def listDrivers_ok)
    next
      case (Some r)
      with assms Inr True show ?thesis by (cases r) (simp_all add: run_def listDrivers_ok)
    qed
    from run_ok [OF True sync] assms Inr
    have "out = formatMarkdownTable (cells (final_store langs)) (new_drivers 0 langs) findAllUastTypes []"
      and "st = final_store langs"
      by auto
    with that Inr True sync show ?thesis by blast
  qed
qed

lemma catalog_names: "map name findAllUastTypes = map (\<lambda>n. ''uast.'' @ n) types"
  by (simp add: findAllUastTypes_def types_def reflect_String_def)

lemma identifier_not_catalog: "''Identifier'' \<notin> set (map name findAllUastTypes)"
  unfolding catalog_names by auto

lemma final_store_zero:
  assumes "t \<in> set findAllUastTypes"
  shows "map_index (cells (final_store langs)) r (name t) = 0"
proof -
  from assms have "name t \<in> set (map name findAllUastTypes)" by simp
  with identifier_not_catalog have "name t \<noteq> ''Identifier''" by metis
  then show ?thesis
    by (cases r) (simp_all add: map_index_def deref_def final_store_cells)
qed

lemma final_store_rows:
  "map (row_text (cells (final_store langs)) ds) findAllUastTypes =
   map (\<lambda>t. ''|'' @ fmt_s 25 (name t) @ ''|'' @ concat (map (\<lambda>d. '' 0/0 |'') ds) @ ''\<newline>'')
     findAllUastTypes"
  by (rule map_cong [OF refl]) (simp add: row_text_def final_store_zero fmt_d_zero)

lemma final_store_code:
  assumes "d \<in> set (new_drivers 0 langs)"
  shows "deref (cells (final_store langs)) (codeUast d) = [''Identifier'' \<mapsto> 1]"
    and "deref (cells (final_store langs)) (fixturesUast d) = Map.empty"
proof -
  from new_drivers_addr [OF assms] obtain k where
    f: "fixturesUast d = Some (0 + 2 * k)" and c: "codeUast d = Some (Suc (0 + 2 * k))"
    by (elim exE conjE)
  from assms c have "Some (Suc (0 + 2 * k)) \<in> codeUast ` set (new_drivers 0 langs)"
    by (metis image_eqI)
  then show "deref (cells (final_store langs)) (codeUast d) = [''Identifier'' \<mapsto> 1]"
    by (simp add: deref_def c final_store_cells)
  from new_drivers_fixtures_not_code [OF assms] f
  have "Some (0 + 2 * k) \<notin> codeUast ` set (new_drivers 0 langs)" by simp
  then show "deref (cells (final_store langs)) (fixturesUast d) = Map.empty"
    by (simp add: deref_def f final_store_cells)
qed

text \<open>
  Claim C9. \<open>analyzeCode\<close> records its count under the bare key \<open>Identifier\<close>, while every
  name of the catalog that \<open>findAllUastTypes\<close> builds is \<open>uast.\<close> followed by a type name,
  so \<open>Identifier\<close> is none of them. The formatter looks a cell up by the catalog name:
  in every run that prints a report, the count 1 sits in each driver's code map and
  every cell of the report is \<open>0/0\<close>, \<open>analyzeFixtures\<close> recording nothing.
\<close>

theorem identifier_count_never_reported:
  "map name findAllUastTypes = map (\<lambda>n. ''uast.'' @ n) types \<and>
   ''Identifier'' \<notin> set (map name findAllUastTypes) \<and>
   (run discovered w evs = Some (Ok (out, st)) \<longrightarrow>
      (case listDrivers discovered empty_store of
         Ok (ds, st0) \<Rightarrow>
           out = header @ formatMarkdownTableHeader ds [] @
                 concat (map (\<lambda>t. ''|'' @ fmt_s 25 (name t) @ ''|'' @
                                   concat (map (\<lambda>d. '' 0/0 |'') ds) @ ''\<newline>'')
                           findAllUastTypes) @
                 footer \<and>
           list_all (\<lambda>d. map_index (cells st) (codeUast d) ''Identifier'' = 1) ds
       | Err e \<Rightarrow> False
       | Panic p \<Rightarrow> False))"
proof (intro conjI impI)
  show "map name findAllUastTypes = map (\<lambda>n. ''uast.'' @ n) types" by (rule catalog_names)
  show "''Identifier'' \<notin> set (map name findAllUastTypes)" by (rule identifier_not_catalog)
next
  assume "run discovered w evs = Some (Ok (out, st))"
  then obtain langs where d: "discovered = Inr langs"
    and sl: "list_all (\<lambda>l. CHR ''/'' \<in> set (RepositoryURL l)) langs"
    and out: "out = formatMarkdownTable (cells (final_store langs)) (new_drivers 0 langs) findAllUastTypes []"
    and st: "st = final_store langs"
    by (rule run_report_cases)
  have one: "list_all (\<lambda>d. map_index (cells (final_store langs)) (codeUast d) ''Identifier'' = 1)
               (new_drivers 0 langs)"
    by (simp add: list_all_iff map_index_def final_store_code(1))
  show "case listDrivers discovered empty_store of
         Ok (ds, st0) \<Rightarrow>
           out = header @ formatMarkdownTableHeader ds [] @
                 concat (map (\<lambda>t. ''|'' @ fmt_s 25 (name t) @ ''|'' @
                                   concat (map (\<lambda>d. '' 0/0 |'') ds) @ ''\<newline>'')
                           findAllUastTypes) @
                 footer \<and>
           list_all (\<lambda>d. map_index (cells st) (codeUast d) ''Identifier'' = 1) ds
       | Err e \<Rightarrow> False
       | Panic p \<Rightarrow> False"
    unfolding d listDrivers_ok [OF sl] out st
    using one by (simp add: formatMarkdownTable_closed final_store_rows)
qed

section \<open>The whole run: report, extraction and the join\<close>

lemma example_run:
  "run (Inr example_langs) env_clone_ok (seq_schedule two_envs) =
     Some (Ok (formatMarkdownTable (cells (final_store example_langs)) (new_drivers 0 example_langs)
                 findAllUastTypes [], final_store example_langs))"
proof -
  have sl: "list_all (\<lambda>l. CHR ''/'' \<in> set (RepositoryURL l)) example_langs"
    by (simp add: example_langs_def)
  have len: "length two_envs = length (new_drivers 0 example_langs)"
    by (simp add: two_envs_def example_langs_def)
  have mk: "os_MkdirAll env_clone_ok repoRootPath = None"
    by (simp add: env_clone_ok_def)
  have "maybeCloneOrPullAll env_clone_ok (new_drivers 0 example_langs) (seq_schedule two_envs) = Some None"
    using seq_schedule_complete [OF len] mk by (simp add: maybeCloneOrPullAll_def)
  with sl show ?thesis by (rule run_ok)
qed

text \<open>
  The hypothesis of C9: a run over two drivers that prints a report.
\<close>

theorem identifier_count_never_reported_witness:
  "run (Inr example_langs) env_clone_ok (seq_schedule two_envs) =
     Some (Ok (formatMarkdownTable (cells (final_store example_langs)) (new_drivers 0 example_langs)
                 findAllUastTypes [], final_store example_langs)) \<and>
   (case listDrivers (Inr example_langs) empty_store of
         Ok (ds, st0) \<Rightarrow>
           formatMarkdownTable (cells (final_store example_langs)) (new_drivers 0 example_langs)
                 findAllUastTypes [] =
                 header @ formatMarkdownTableHeader ds [] @
                 concat (map (\<lambda>t. ''|'' @ fmt_s 25 (name t) @ ''|'' @
                                   concat (map (\<lambda>d. '' 0/0 |'') ds) @ ''\<newline>'')
                           findAllUastTypes) @
                 footer \<and>
           list_all (\<lambda>d. map_index (cells (final_store example_langs)) (codeUast d) ''Identifier'' = 1) ds
       | Err e \<Rightarrow> False
       | Panic p \<Rightarrow> False)"
  using example_run
    identifier_count_never_reported [of "Inr example_langs" env_clone_ok "seq_schedule two_envs"
      "formatMarkdownTable (cells (final_store example_langs)) (new_drivers 0 example_langs)
                 findAllUastTypes []" "final_store example_langs"]
  by blast

text \<open>
  Claim C3, as the code has it. No sync outcome gates the extraction: in every run that
  reaches the report, whatever the clone or pull of a driver returned, each driver ends
  with an empty fixture map and with the code map \<open>{Identifier: 1}\<close> that \<open>analyzeCode\<close>
  wrote, and each driver is in the report, which is \<open>spec_report\<close> over the full driver
  list, with the counts \<open>(0, 0)\<close> at every catalog entry.
\<close>

theorem failed_sync_still_analyzed:
  assumes "run discovered w evs = Some (Ok (out, st))"
  shows "case listDrivers discovered empty_store of
           Ok (ds, st0) \<Rightarrow>
             out = spec_report (cells st) ds findAllUastTypes \<and>
             list_all (\<lambda>d. deref (cells st) (codeUast d) = [''Identifier'' \<mapsto> 1] \<and>
                           deref (cells st) (fixturesUast d) = Map.empty \<and>
                           list_all (\<lambda>t. spec_counts (cells st) t d = (0, 0)) findAllUastTypes) ds
         | Err e \<Rightarrow> False
         | Panic p \<Rightarrow> False"
proof -
  from assms obtain langs where d: "discovered = Inr langs"
    and sl: "list_all (\<lambda>l. CHR ''/'' \<in> set (RepositoryURL l)) langs"
    and out: "out = formatMarkdownTable (cells (final_store langs)) (new_drivers 0 langs) findAllUastTypes []"
    and st: "st = final_store langs"
    by (rule run_report_cases)
  have "list_all (\<lambda>d. deref (cells (final_store langs)) (codeUast d) = [''Identifier'' \<mapsto> 1] \<and>
                           deref (cells (final_store langs)) (fixturesUast d) = Map.empty \<and>
                           list_all (\<lambda>t. spec_counts (cells (final_store langs)) t d = (0, 0)) findAllUastTypes)
          (new_drivers 0 langs)"
    by (simp add: list_all_iff final_store_code spec_counts_def final_store_zero)
  then show ?thesis
    unfolding d listDrivers_ok [OF sl] out st
    by (simp add: formatMarkdownTable_spec_report)
qed

text \<open>
  The hypothesis of the amended C3 at a run in which the clone of the first driver fails.
\<close>

theorem failed_sync_still_analyzed_witness:
  "run (Inr example_langs) env_clone_ok (seq_schedule two_envs) =
     Some (Ok (formatMarkdownTable (cells (final_store example_langs)) (new_drivers 0 example_langs)
                 findAllUastTypes [], final_store example_langs)) \<and>
   maybeCloneOrPull env_clone_fails (new_drivers 0 example_langs ! 0) = Some clone_error \<and>
   (case listDrivers (Inr example_langs) empty_store of
           Ok (ds, st0) \<Rightarrow>
             formatMarkdownTable (cells (final_store example_langs)) (new_drivers 0 example_langs)
                 findAllUastTypes [] = spec_report (cells (final_store example_langs)) ds findAllUastTypes \<and>
             list_all (\<lambda>d. deref (cells (final_store example_langs)) (codeUast d) = [''Identifier'' \<mapsto> 1] \<and>
                           deref (cells (final_store example_langs)) (fixturesUast d) = Map.empty \<and>
                           list_all (\<lambda>t. spec_counts (cells (final_store example_langs)) t d = (0, 0))
                             findAllUastTypes) ds
         | Err e \<Rightarrow> False
         | Panic p \<Rightarrow> False)"
proof -
  have f: "maybeCloneOrPull env_clone_fails (new_drivers 0 example_langs ! 0) = Some clone_error"
    by code_simp
  from f example_run failed_sync_still_analyzed [OF example_run]
  show ?thesis by blast
qed

text \<open>
  Claim C3 as stated fails: the clone of the first driver fails (its goroutine ends with
  the error), and at the end of the run its code map holds \<open>Identifier\<close> with count 1, so
  the extraction did run for it and its maps are not empty.
\<close>

theorem failed_sync_maps_counterexample:
  "(case listDrivers (Inr example_langs) empty_store of
      Ok (ds, st0) \<Rightarrow>
        exec ds (seq_schedule two_envs) (init ds) =
          Some \<lparr>mpc = M_Return, wg = 0, concurent = [],
                tasks = [T_Exit (Some clone_error), T_Exit None]\<rparr> \<and>
        (case run (Inr example_langs) env_clone_ok (seq_schedule two_envs) of
           Some (Ok (out, st)) \<Rightarrow> deref (cells st) (codeUast (ds ! 0)) ''Identifier'' = Some 1
         | _ \<Rightarrow> False)
    | _ \<Rightarrow> False)"
proof -
  have sl: "list_all (\<lambda>l. CHR ''/'' \<in> set (RepositoryURL l)) example_langs"
    by (simp add: example_langs_def)
  have ex: "exec (new_drivers 0 example_langs) (seq_schedule two_envs)
              (init (new_drivers 0 example_langs)) =
          Some \<lparr>mpc = M_Return, wg = 0, concurent = [],
                tasks = [T_Exit (Some clone_error), T_Exit None]\<rparr>"
    by code_simp
  have "new_drivers 0 example_langs ! 0 \<in> set (new_drivers 0 example_langs)"
    by (simp add: example_langs_def)
  from final_store_code(1) [OF this]
  have one: "deref (cells (final_store example_langs)) (codeUast (new_drivers 0 example_langs ! 0))
               ''Identifier'' = Some 1"
    by simp
  show ?thesis
    by (simp add: listDrivers_ok [OF sl] ex example_run one)
qed

lemma sync_returns_after_all_exit:
  assumes "os_MkdirAll w repoRootPath = None" and "maybeCloneOrPullAll w ds evs = Some r"
  obtains s where "exec ds evs (init ds) = Some s" and "mpc s = M_Return"
    and "length (tasks s) = length ds" and "list_all is_exit (tasks s)"
proof -
  from assms obtain s where e: "exec ds evs (init ds) = Some s" and m: "mpc s = M_Return"
    by (auto simp: maybeCloneOrPullAll_def split: option.splits if_splits)
  from reachable_inv [OF e] m have len: "length (tasks s) = length ds"
    and ex: "\<forall>j<length ds. is_exit (tasks s ! j)"
    by (simp_all add: sync_inv_def)
  then have "list_all is_exit (tasks s)" by (simp add: list_all_length)
  with e m len that show thesis by blast
qed

text \<open>
  Claim C7. \<open>run\<close> computes the analyses and the report only in the branch where
  \<open>maybeCloneOrPullAll\<close> has returned nil. Whenever the drivers are listed, the clone root
  exists and the run has a result, the schedule has brought the main goroutine past
  \<open>wg.Wait()\<close> and every driver's task has terminated, with an error or without.
\<close>

theorem join_barrier:
  assumes "listDrivers discovered empty_store = Ok (drivers, st0)"
    and "os_MkdirAll w repoRootPath = None"
    and "run discovered w evs = Some result"
  shows "case exec drivers evs (init drivers) of
           Some s \<Rightarrow> mpc s = M_Return \<and> length (tasks s) = length drivers \<and> list_all is_exit (tasks s)
         | None \<Rightarrow> False"
proof -
  from assms(1,3) obtain r where "maybeCloneOrPullAll w drivers evs = Some r"
    by (cases "maybeCloneOrPullAll w drivers evs") (simp_all add: run_def)
  from sync_returns_after_all_exit [OF assms(2) this]
  obtain s where "exec drivers evs (init drivers) = Some s" and "mpc s = M_Return"
    and "length (tasks s) = length drivers" and "list_all is_exit (tasks s)" .
  then show ?thesis by simp
qed

text \<open>
  The hypotheses of C7 at two drivers, the clone of the first failing; the same schedule
  without its last step, the return from \<open>wg.Wait()\<close>, gives no run at all.
\<close>

theorem join_barrier_witness:
  "listDrivers (Inr example_langs) empty_store =
     Ok (new_drivers 0 example_langs, alloc_maps (2 * length example_langs) empty_store) \<and>
   os_MkdirAll env_clone_ok repoRootPath = None \<and>
   run (Inr example_langs) env_clone_ok (seq_schedule two_envs) =
     Some (Ok (formatMarkdownTable (cells (final_store example_langs)) (new_drivers 0 example_langs)
                 findAllUastTypes [], final_store example_langs)) \<and>
   exec (new_drivers 0 example_langs) (seq_schedule two_envs) (init (new_drivers 0 example_langs)) =
     Some \<lparr>mpc = M_Return, wg = 0, concurent = [],
           tasks = [T_Exit (Some clone_error), T_Exit None]\<rparr> \<and>
   run (Inr example_langs) env_clone_ok (butlast (seq_schedule two_envs)) = None \<and>
   (case exec (new_drivers 0 example_langs) (seq_schedule two_envs) (init (new_drivers 0 example_langs)) of
      Some s \<Rightarrow> mpc s = M_Return \<and> length (tasks s) = length (new_drivers 0 example_langs) \<and>
                list_all is_exit (tasks s)
    | None \<Rightarrow> False)"
proof -
  have h1: "listDrivers (Inr example_langs) empty_store =
     Ok (new_drivers 0 example_langs, alloc_maps (2 * length example_langs) empty_store)"
    by (rule listDrivers_ok) (simp add: example_langs_def)
  have h2: "os_MkdirAll env_clone_ok repoRootPath = None"
    by (simp add: env_clone_ok_def)
  have ex: "exec (new_drivers 0 example_langs) (seq_schedule two_envs)
              (init (new_drivers 0 example_langs)) =
          Some \<lparr>mpc = M_Return, wg = 0, concurent = [],
                tasks = [T_Exit (Some clone_error), T_Exit None]\<rparr>"
    by code_simp
  have early: "maybeCloneOrPullAll env_clone_ok (new_drivers 0 example_langs)
                 (butlast (seq_schedule two_envs)) = None"
    by code_simp
  have none: "run (Inr example_langs) env_clone_ok (butlast (seq_schedule two_envs)) = None"
    by (simp add: run_def h1 early)
  from h1 h2 ex none example_run join_barrier [OF h1 h2 example_run]
  show ?thesis by blast
qed

end
